theory Spec2Isabelle
  imports Complex_Main
begin

section \<open>Trial selection and samplers of nips2018/movie/parameters.py\<close>

text \<open>
  The development embeds the trial-selection code of \<^verbatim>\<open>parameters.py\<close>:
  \<^verbatim>\<open>StimulusTypeMixin.get_constraint\<close>, the size-matching loop and the sampler choice of
  \<^verbatim>\<open>StimulusTypeMixin.get_loaders\<close>, the group assignment of
  \<^verbatim>\<open>AreaLayerSplitRawInputResponse.load_data\<close> and the class
  \<^verbatim>\<open>BalancedSubsetSampler\<close>.

  Strings are byte strings (ASCII); numpy boolean arrays are \<^typ>\<open>bool list\<close>; every
  exception the code can raise on these paths is a value of \<open>exn\<close>, and fallible
  functions return \<open>exn + 'a\<close> with \<open>Inl\<close> the raised exception.
\<close>

subsection \<open>Exceptions\<close>

datatype exn =
    ValueError
  | IndexError
  | AttributeError
  | ZeroDivisionError
  | AssertionError string
  | UnboundLocalError string

subsection \<open>Python string operations\<close>

text \<open>
  \<^verbatim>\<open>str.split(sep)\<close> for a one-character separator: the result always has at least one
  element (lemma \<open>split_on_nonempty\<close> below, so \<open>hd\<close> and \<open>tl\<close> are applied to a
  non-empty list), and adjacent separators give empty strings.
\<close>

fun split_on :: "char \<Rightarrow> string \<Rightarrow> string list" where
  "split_on sep [] = [[]]"
| "split_on sep (x # xs) =
     (if x = sep then [] # split_on sep xs
      else (let r = split_on sep xs in (x # hd r) # tl r))"

text \<open>
  \<^verbatim>\<open>str.strip()\<close> removes leading and trailing whitespace; on ASCII the whitespace
  characters of Python are the codes 9 to 13 and 28 to 32.
\<close>

definition py_isspace :: "char \<Rightarrow> bool" where
  "py_isspace c = (let n = (of_char c :: nat) in (9 \<le> n \<and> n \<le> 13) \<or> (28 \<le> n \<and> n \<le> 32))"

definition strip :: "string \<Rightarrow> string" where
  "strip s = rev (dropWhile py_isspace (rev (dropWhile py_isspace s)))"

definition startswith :: "string \<Rightarrow> char \<Rightarrow> bool" where
  "startswith s c = (case s of [] \<Rightarrow> False | x # _ \<Rightarrow> x = c)"

subsection \<open>numpy operations on one-dimensional boolean arrays\<close>

text \<open>
  \<^verbatim>\<open>a & b\<close>: elementwise on equal shapes; an operand of length one is broadcast;
  any other pair of shapes raises \<^verbatim>\<open>ValueError\<close>.
\<close>

definition np_and :: "bool list \<Rightarrow> bool list \<Rightarrow> exn + bool list" where
  "np_and a b =
     (if length a = length b then Inr (map2 (\<and>) a b)
      else if length a = 1 then Inr (map (\<lambda>y. hd a \<and> y) b)
      else if length b = 1 then Inr (map (\<lambda>x. x \<and> hd b) a)
      else Inl ValueError)"

text \<open>
  \<^verbatim>\<open>c3 &= u\<close>: in place, so the result has the shape of \<^verbatim>\<open>c3\<close>; \<^verbatim>\<open>u\<close> is broadcast
  when its length is one, and every other shape mismatch raises \<^verbatim>\<open>ValueError\<close>.
\<close>

definition np_iand :: "bool list \<Rightarrow> bool list \<Rightarrow> exn + bool list" where
  "np_iand c3 u =
     (if length u = length c3 then Inr (map2 (\<and>) c3 u)
      else if length u = 1 then Inr (map (\<lambda>x. x \<and> hd u) c3)
      else Inl ValueError)"

text \<open>\<^verbatim>\<open>c.sum()\<close> of a boolean array: the number of true entries.\<close>

definition np_sum :: "bool list \<Rightarrow> nat" where
  "np_sum c = length (filter id c)"

text \<open>\<^verbatim>\<open>c.cumsum()\<close> of a boolean array: the running number of true entries.\<close>

fun cumsum_from :: "nat \<Rightarrow> bool list \<Rightarrow> nat list" where
  "cumsum_from acc [] = []"
| "cumsum_from acc (b # bs) =
     (let acc' = acc + (if b then 1 else 0) in acc' # cumsum_from acc' bs)"

definition cumsum :: "bool list \<Rightarrow> nat list" where
  "cumsum c = cumsum_from 0 c"

text \<open>\<^verbatim>\<open>np.where(c)[0]\<close>: the positions of the true entries, ascending.\<close>

definition np_where :: "bool list \<Rightarrow> nat list" where
  "np_where c = filter (\<lambda>i. c ! i) [0..<length c]"

subsection \<open>Datasets and \<^verbatim>\<open>get_constraint\<close>\<close>

record dataset =
  types :: "string list"
  tiers :: "string list"

text \<open>One pass of the loop body of \<^verbatim>\<open>get_constraint\<close> (lines 291 to 295).\<close>

definition token_mask :: "string list \<Rightarrow> string \<Rightarrow> bool list" where
  "token_mask tys const =
     (if startswith const CHR ''~'' then map (\<lambda>t. t \<noteq> tl const) tys
      else map (\<lambda>t. t = const) tys)"

definition constraint_step :: "string list \<Rightarrow> string \<Rightarrow> bool list \<Rightarrow> bool list" where
  "constraint_step tys const constraint = map2 (\<or>) constraint (token_mask tys const)"

definition get_constraint :: "dataset \<Rightarrow> string \<Rightarrow> string option \<Rightarrow> exn + bool list" where
  "get_constraint ds stimulus_type tier =
     (let constraint = fold (constraint_step (types ds))
                         (map strip (split_on CHR ''|'' stimulus_type))
                         (replicate (length (types ds)) False)
      in case tier of
           None \<Rightarrow> Inr constraint
         | Some t \<Rightarrow> np_and constraint (map (\<lambda>x. x = t) (tiers ds)))"

subsection \<open>Size matching: lines 314 to 327 of \<^verbatim>\<open>get_loaders\<close>\<close>

text \<open>
  \<^verbatim>\<open>np.min\<close> of a list raises \<^verbatim>\<open>ValueError\<close> on the empty list.
\<close>

definition np_min :: "nat list \<Rightarrow> exn + nat" where
  "np_min xs = (case xs of [] \<Rightarrow> Inl ValueError | x # xs' \<Rightarrow> Inr (fold min xs' x))"

text \<open>\<^verbatim>\<open>c & (c.cumsum() <= min_n)\<close>\<close>

definition truncate_mask :: "nat \<Rightarrow> bool list \<Rightarrow> bool list" where
  "truncate_mask min_n c = map2 (\<lambda>b k. b \<and> k \<le> min_n) c (cumsum c)"

text \<open>
  \<^verbatim>\<open>for c3 in constraints[i + 1:]: c3 &= untouched\<close>. The arrays of the list are
  updated in place, so the later passes of the outer loop see the updated arrays; the
  model returns the updated tail of the list.
\<close>

fun iand_all :: "bool list \<Rightarrow> bool list list \<Rightarrow> exn + bool list list" where
  "iand_all untouched [] = Inr []"
| "iand_all untouched (c3 # cs) =
     (case np_iand c3 untouched of
        Inl e \<Rightarrow> Inl e
      | Inr c3' \<Rightarrow> (case iand_all untouched cs of
                      Inl e \<Rightarrow> Inl e
                    | Inr cs' \<Rightarrow> Inr (c3' # cs')))"

text \<open>
  The loop \<^verbatim>\<open>for i, c, st in zip(count(), constraints, stimulus_types)\<close>: it ends with
  the shorter of the two lists; the result is \<^verbatim>\<open>new_con\<close>.
\<close>

fun shrink_loop :: "nat \<Rightarrow> bool list list \<Rightarrow> string list \<Rightarrow> exn + bool list list" where
  "shrink_loop min_n [] sts = Inr []"
| "shrink_loop min_n (c # cs) [] = Inr []"
| "shrink_loop min_n (c # cs) (st # sts) =
     (let c2 = (if CHR ''|'' \<notin> set st then truncate_mask min_n c else c);
          untouched = map2 (=) c c2
      in case iand_all untouched cs of
           Inl e \<Rightarrow> Inl e
         | Inr cs' \<Rightarrow> (case shrink_loop min_n cs' sts of
                         Inl e \<Rightarrow> Inl e
                       | Inr new_con \<Rightarrow> Inr (c2 # new_con)))"

text \<open>
  The body of \<^verbatim>\<open>if shrink_to_same_size:\<close>: the tier gate, \<^verbatim>\<open>min_n\<close> computed once
  before the loop, then the loop.
\<close>

definition shrink_constraints ::
  "string option \<Rightarrow> bool list list \<Rightarrow> string list \<Rightarrow> exn + bool list list" where
  "shrink_constraints tier constraints stimulus_types =
     (if tier = None \<or> tier = Some ''train'' \<or> tier = Some ''validation'' then
        (case np_min (map np_sum constraints) of
           Inl e \<Rightarrow> Inl e
         | Inr min_n \<Rightarrow> shrink_loop min_n constraints stimulus_types)
      else Inr constraints)"

subsection \<open>\<^verbatim>\<open>BalancedSubsetSampler\<close>\<close>

text \<open>
  \<^verbatim>\<open>types[indices]\<close>: numpy indexing with an index array; an index out of range raises
  \<^verbatim>\<open>IndexError\<close>. Indices are natural numbers, as \<^verbatim>\<open>np.where\<close> produces them.
\<close>

definition np_take :: "'a list \<Rightarrow> nat list \<Rightarrow> exn + 'a list" where
  "np_take a ix = (if list_all (\<lambda>i. i < length a) ix then Inr (map (nth a) ix) else Inl IndexError)"

text \<open>
  \<^verbatim>\<open>collections.Counter\<close>: an association list in order of first occurrence; a missing
  key counts 0.
\<close>

fun counter_add :: "'a \<Rightarrow> ('a \<times> nat) list \<Rightarrow> ('a \<times> nat) list" where
  "counter_add x [] = [(x, 1)]"
| "counter_add x ((k, v) # kvs) =
     (if k = x then (k, v + 1) # kvs else (k, v) # counter_add x kvs)"

definition Counter :: "'a list \<Rightarrow> ('a \<times> nat) list" where
  "Counter xs = fold counter_add xs []"

definition counter_get :: "('a \<times> nat) list \<Rightarrow> 'a \<Rightarrow> nat" where
  "counter_get c k = (case map_of c k of None \<Rightarrow> 0 | Some v \<Rightarrow> v)"

text \<open>Python's \<^verbatim>\<open>min\<close> and \<^verbatim>\<open>max\<close> raise \<^verbatim>\<open>ValueError\<close> on an empty sequence.\<close>

definition py_min :: "nat list \<Rightarrow> exn + nat" where
  "py_min xs = (case xs of [] \<Rightarrow> Inl ValueError | x # xs' \<Rightarrow> Inr (fold min xs' x))"

definition py_max :: "nat list \<Rightarrow> exn + nat" where
  "py_max xs = (case xs of [] \<Rightarrow> Inl ValueError | x # xs' \<Rightarrow> Inr (fold max xs' x))"

text \<open>
  The attributes \<^verbatim>\<open>num_samples\<close> and \<^verbatim>\<open>replacement\<close> are only assigned for the modes
  \<^verbatim>\<open>'longest'\<close> and \<^verbatim>\<open>'shortest'\<close>, hence the options. The weights \<^verbatim>\<open>1 / n\<close> are
  doubles in the source and exact rationals here; they only feed the random draw.
\<close>

record balanced_sampler =
  indices :: "nat list"
  num_samples :: "nat option"
  replacement :: "bool option"
  weights :: "rat list"

definition BalancedSubsetSampler_init ::
  "nat list \<Rightarrow> string list \<Rightarrow> string \<Rightarrow> exn + balanced_sampler" where
  "BalancedSubsetSampler_init ix tys mode =
     (case np_take tys ix of
        Inl e \<Rightarrow> Inl e
      | Inr labels \<Rightarrow>
          (let c = Counter labels;
               w = map (\<lambda>i. 1 / of_nat (counter_get c (tys ! i))) ix
           in if mode = ''longest'' then
                (case py_max (map snd c) of
                   Inl e \<Rightarrow> Inl e
                 | Inr m \<Rightarrow> Inr \<lparr>indices = ix, num_samples = Some m,
                                 replacement = Some True, weights = w\<rparr>)
              else if mode = ''shortest'' then
                (case py_min (map snd c) of
                   Inl e \<Rightarrow> Inl e
                 | Inr m \<Rightarrow> Inr \<lparr>indices = ix, num_samples = Some m,
                                 replacement = Some False, weights = w\<rparr>)
              else Inr \<lparr>indices = ix, num_samples = None, replacement = None, weights = w\<rparr>))"

text \<open>\<^verbatim>\<open>__len__\<close>: reading an attribute that was never assigned raises \<^verbatim>\<open>AttributeError\<close>.\<close>

definition BalancedSubsetSampler_len :: "balanced_sampler \<Rightarrow> exn + nat" where
  "BalancedSubsetSampler_len s =
     (case num_samples s of None \<Rightarrow> Inl AttributeError | Some n \<Rightarrow> Inr n)"

text \<open>
  \<^verbatim>\<open>__iter__\<close> maps the positions drawn by \<^verbatim>\<open>torch.multinomial\<close> to indices. The draw
  is random and belongs to the torch library: it is a parameter here, and
  \<open>multinomial_draw\<close> is the library's contract for a draw of \<open>n\<close> positions from the
  weights \<open>w\<close> (positions of \<open>w\<close>, pairwise different when drawn without replacement).
  A position outside \<^verbatim>\<open>self.indices\<close> raises \<^verbatim>\<open>IndexError\<close>.
\<close>

definition multinomial_draw :: "rat list \<Rightarrow> nat \<Rightarrow> bool \<Rightarrow> nat list \<Rightarrow> bool" where
  "multinomial_draw w n repl draw =
     (length draw = n \<and> list_all (\<lambda>i. i < length w) draw \<and> (repl \<or> distinct draw))"

definition BalancedSubsetSampler_iter :: "balanced_sampler \<Rightarrow> nat list \<Rightarrow> exn + nat list" where
  "BalancedSubsetSampler_iter s draw =
     (case num_samples s of
        None \<Rightarrow> Inl AttributeError
      | Some n \<Rightarrow>
          if list_all (\<lambda>i. i < length (indices s)) draw
          then Inr (map (\<lambda>i. indices s ! i) draw)
          else Inl IndexError)"

subsection \<open>Group assignment: \<^verbatim>\<open>AreaLayerSplitRawInputResponse.load_data\<close>\<close>

text \<open>\<^verbatim>\<open>[s.strip() for s in key['stimulus_types'].split(',')]\<close>\<close>

definition split_tokens :: "string \<Rightarrow> string list" where
  "split_tokens s = map strip (split_on CHR '','' s)"

text \<open>
  \<^verbatim>\<open>[n // T if i < T - 1 else n - (T - 1) * (n // T) for i in range(T)]\<close>. The product
  \<^verbatim>\<open>(T - 1) * (n // T)\<close> never exceeds \<^verbatim>\<open>n\<close>, so the subtraction on \<^typ>\<open>nat\<close> is the
  source's.
\<close>

definition group_sizes :: "nat \<Rightarrow> nat \<Rightarrow> nat list" where
  "group_sizes n T = map (\<lambda>i. if i < T - 1 then n div T else n - (T - 1) * (n div T)) [0..<T]"

text \<open>
  Lines 534 to 540 on the token list \<open>t\<close>, with \<open>n\<close> the number of member datasets and
  \<open>permute_key\<close> the value of \<^verbatim>\<open>key['permute']\<close>. Python's \<^verbatim>\<open>%\<close> with a positive
  modulus is \<open>mod\<close> on \<^typ>\<open>int\<close>; with \<^verbatim>\<open>T = 0\<close> it raises. The \<^verbatim>\<open>assert\<close> is
  taken as enabled.
\<close>

definition assign_groups :: "string list \<Rightarrow> nat \<Rightarrow> int \<Rightarrow> exn + string list" where
  "assign_groups t n permute_key =
     (let T = length t in
      if T = 0 then Inl ZeroDivisionError
      else
        (let permute = nat (permute_key mod int T) in
         if \<not> (n div T \<ge> 1) then Inl (AssertionError ''not enough member datasets to do splits'')
         else Inr (concat (map2 (\<lambda>g a. replicate g a) (group_sizes n T)
                             (drop permute t @ take permute t)))))"

subsection \<open>\<^verbatim>\<open>get_loaders\<close>\<close>

text \<open>
  The argument \<^verbatim>\<open>stimulus_types\<close> is \<^verbatim>\<open>None\<close>, one expression, or a list of expressions.
\<close>

datatype stimulus_arg = ArgNone | ArgStr string | ArgList "string list"

text \<open>
  Lines 302 to 307. The class attribute \<^verbatim>\<open>_stimulus_type\<close> is \<^verbatim>\<open>None\<close> in the mixin
  itself. A list of \<^verbatim>\<open>None\<close> entries makes the first call of \<^verbatim>\<open>get_constraint\<close> raise
  \<^verbatim>\<open>AttributeError\<close> at \<^verbatim>\<open>stimulus_type.split\<close>; that list is non-empty exactly when
  there is a dataset, and only logging happens in between, so the error is returned here.
\<close>

definition resolve_stimulus_types :: "string option \<Rightarrow> nat \<Rightarrow> stimulus_arg \<Rightarrow> exn + string list" where
  "resolve_stimulus_types self_stimulus_type n arg =
     (case arg of
        ArgList l \<Rightarrow> Inr l
      | ArgStr s \<Rightarrow> Inr (replicate n s)
      | ArgNone \<Rightarrow>
          (case self_stimulus_type of
             Some s \<Rightarrow> Inr (replicate n s)
           | None \<Rightarrow> if n = 0 then Inr [] else Inl AttributeError))"

text \<open>
  \<^verbatim>\<open>[self.get_constraint(dataset, stimulus_type, tier=tier) for dataset, stimulus_type in
  zip(datasets.values(), stimulus_types)]\<close>
\<close>

fun build_constraints ::
  "dataset list \<Rightarrow> string list \<Rightarrow> string option \<Rightarrow> exn + bool list list" where
  "build_constraints [] sts tier = Inr []"
| "build_constraints (d # ds) [] tier = Inr []"
| "build_constraints (d # ds) (st # sts) tier =
     (case get_constraint d st tier of
        Inl e \<Rightarrow> Inl e
      | Inr c \<Rightarrow> (case build_constraints ds sts tier of
                    Inl e \<Rightarrow> Inl e
                  | Inr cs \<Rightarrow> Inr (c # cs)))"

datatype sampler =
    SubsetRandomSampler "nat list"
  | BalancedSampler balanced_sampler
  | SubsetSequentialSampler "nat list"

text \<open>
  torch's \<^verbatim>\<open>DataLoader\<close> is kept as the sampler and the batch size it was given; its
  constructor rejects a batch size that is not positive with \<^verbatim>\<open>ValueError\<close>.
\<close>

record loader =
  sampler :: sampler
  batch_size :: int

definition DataLoader :: "sampler \<Rightarrow> int \<Rightarrow> exn + loader" where
  "DataLoader s b = (if b \<le> 0 then Inl ValueError else Inr \<lparr>sampler = s, batch_size = b\<rparr>)"

text \<open>
  Lines 332 to 347 for one dataset. The local variable \<^verbatim>\<open>types\<close> is assigned only
  under \<^verbatim>\<open>if merge_noise_types:\<close>; reading it unassigned raises \<^verbatim>\<open>UnboundLocalError\<close>
  while the arguments of the sampler are evaluated, before \<^verbatim>\<open>DataLoader\<close> is called.
\<close>

definition make_loader ::
  "string option \<Rightarrow> int \<Rightarrow> bool \<Rightarrow> bool \<Rightarrow> dataset \<Rightarrow> bool list \<Rightarrow> exn + loader" where
  "make_loader tier bsz balanced merge_noise_types ds constraint =
     (let ix = np_where constraint in
      if tier = Some ''train'' then
        (if \<not> balanced then DataLoader (SubsetRandomSampler ix) bsz
         else if merge_noise_types then
           (case BalancedSubsetSampler_init ix
                   (map (\<lambda>t. if t = ''stimulus.Clip'' then ''Clip'' else ''Noise'') (types ds))
                   ''shortest'' of
              Inl e \<Rightarrow> Inl e
            | Inr s \<Rightarrow> DataLoader (BalancedSampler s) bsz)
         else Inl (UnboundLocalError ''types''))
      else DataLoader (SubsetSequentialSampler ix) bsz)"

text \<open>
  The loop \<^verbatim>\<open>for (k, dataset), stimulus_type, constraint in zip(datasets.items(),
  stimulus_types, constraints)\<close>; the keys of an \<^verbatim>\<open>OrderedDict\<close> are pairwise different,
  so \<^verbatim>\<open>loaders[k] = ...\<close> appends.
\<close>

fun loaders_loop ::
  "string option \<Rightarrow> int \<Rightarrow> bool \<Rightarrow> bool \<Rightarrow> ('k \<times> dataset) list \<Rightarrow> string list \<Rightarrow>
   bool list list \<Rightarrow> exn + ('k \<times> loader) list" where
  "loaders_loop tier bsz balanced merge ((k, ds) # rest) (st # sts) (c # cs) =
     (case make_loader tier bsz balanced merge ds c of
        Inl e \<Rightarrow> Inl e
      | Inr l \<Rightarrow> (case loaders_loop tier bsz balanced merge rest sts cs of
                    Inl e \<Rightarrow> Inl e
                  | Inr ls \<Rightarrow> Inr ((k, l) # ls)))"
| "loaders_loop tier bsz balanced merge dss sts cs = Inr []"

definition get_loaders ::
  "string option \<Rightarrow> ('k \<times> dataset) list \<Rightarrow> string option \<Rightarrow> int \<Rightarrow> stimulus_arg \<Rightarrow>
   bool \<Rightarrow> bool \<Rightarrow> bool \<Rightarrow> exn + ('k \<times> loader) list" where
  "get_loaders self_stimulus_type datasets tier bsz stimulus_types balanced
               merge_noise_types shrink_to_same_size =
     (case resolve_stimulus_types self_stimulus_type (length datasets) stimulus_types of
        Inl e \<Rightarrow> Inl e
      | Inr sts \<Rightarrow>
          (case build_constraints (map snd datasets) sts tier of
             Inl e \<Rightarrow> Inl e
           | Inr constraints \<Rightarrow>
               (case (if shrink_to_same_size then shrink_constraints tier constraints sts
                      else Inr constraints) of
                  Inl e \<Rightarrow> Inl e
                | Inr constraints' \<Rightarrow>
                    loaders_loop tier bsz balanced merge_noise_types datasets sts constraints')))"

text \<open>
  \<^verbatim>\<open>AreaLayerSplitRawInputResponse.load_data\<close> and
  \<^verbatim>\<open>AreaLayerSplitRawSizeMatched.load_data\<close> (the latter with
  \<open>shrink_to_same_size\<close>): the group assignment, then the inherited \<^verbatim>\<open>load_data\<close>,
  which reaches \<^verbatim>\<open>get_loaders\<close> with the default \<^verbatim>\<open>merge_noise_types=True\<close>. The
  datasets are those that \<^verbatim>\<open>MovieMultiDataset().fetch_data\<close> returns, \<open>n\<close> is
  \<^verbatim>\<open>len(MovieMultiDataset.Member() & key)\<close>; both belong to the data layer and are
  parameters.
\<close>

definition split_load_data ::
  "('k \<times> dataset) list \<Rightarrow> string \<Rightarrow> nat \<Rightarrow> int \<Rightarrow> bool \<Rightarrow> string option \<Rightarrow> int \<Rightarrow> bool \<Rightarrow>
   exn + ('k \<times> loader) list" where
  "split_load_data datasets key_stimulus_types n key_permute key_balanced tier bsz
                   shrink_to_same_size =
     (case assign_groups (split_tokens key_stimulus_types) n key_permute of
        Inl e \<Rightarrow> Inl e
      | Inr stimulus_types \<Rightarrow>
          get_loaders None datasets tier bsz (ArgList stimulus_types) key_balanced True
            shrink_to_same_size)"

section \<open>Properties\<close>

subsection \<open>Splitting and mask construction\<close>

lemma split_on_nonempty: "split_on sep s \<noteq> []"
  by (induction s) (auto simp: Let_def)

lemma split_on_append: "split_on sep (a @ sep # b) = split_on sep a @ split_on sep b"
proof (induction a)
  case Nil
  then show ?case by simp
next
  case (Cons x a)
  have ne: "split_on sep a \<noteq> []" by (rule split_on_nonempty)
  show ?case using Cons ne by (cases "split_on sep a") (auto simp: Let_def)
qed

lemma length_constraint_step: "length c = length tys \<Longrightarrow> length (constraint_step tys t c) = length tys"
  by (simp add: constraint_step_def token_mask_def)

lemma length_fold_step: "length c = length tys \<Longrightarrow> length (fold (constraint_step tys) ts c) = length tys"
  by (induction ts arbitrary: c) (simp_all add: length_constraint_step)

lemma fold_step_or:
  "length c = length tys \<Longrightarrow>
   fold (constraint_step tys) ts c
     = map2 (\<or>) c (fold (constraint_step tys) ts (replicate (length tys) False))"
proof (induction ts arbitrary: c)
  case Nil
  then show ?case by (simp add: list_eq_iff_nth_eq)
next
  case (Cons t ts)
  let ?z = "replicate (length tys) False"
  have l1: "length (constraint_step tys t c) = length tys"
    using Cons.prems by (rule length_constraint_step)
  have l2: "length (constraint_step tys t ?z) = length tys"
    by (rule length_constraint_step) simp
  have a: "fold (constraint_step tys) (t # ts) c
      = map2 (\<or>) (constraint_step tys t c) (fold (constraint_step tys) ts ?z)"
    using Cons.IH[OF l1] by simp
  have b: "fold (constraint_step tys) (t # ts) ?z
      = map2 (\<or>) (constraint_step tys t ?z) (fold (constraint_step tys) ts ?z)"
    using Cons.IH[OF l2] by simp
  have l3: "length (fold (constraint_step tys) ts ?z) = length tys"
    by (rule length_fold_step) simp
  show ?case unfolding a b using Cons.prems l3
    by (auto simp: list_eq_iff_nth_eq constraint_step_def token_mask_def)
qed

lemma np_and_or_distrib:
  assumes "length a = length b"
  shows "np_and (map2 (\<or>) a b) m =
     (case np_and a m of Inl e \<Rightarrow> Inl e
      | Inr x \<Rightarrow> (case np_and b m of Inl e \<Rightarrow> Inl e | Inr y \<Rightarrow> Inr (map2 (\<or>) x y)))"
proof -
  consider (eq) "length a = length m"
    | (one_a) "length a \<noteq> length m" "length a = 1"
    | (one_m) "length a \<noteq> length m" "length a \<noteq> 1" "length m = 1"
    | (bad) "length a \<noteq> length m" "length a \<noteq> 1" "length m \<noteq> 1"
    by blast
  then show ?thesis
  proof cases
    case eq
    then show ?thesis using assms
      by (auto simp: np_and_def list_eq_iff_nth_eq)
  next
    case one_a
    then show ?thesis using assms
      by (auto simp: np_and_def list_eq_iff_nth_eq hd_conv_nth)
  next
    case one_m
    then show ?thesis using assms
      by (auto simp: np_and_def list_eq_iff_nth_eq hd_conv_nth)
  next
    case bad
    then show ?thesis using assms
      by (simp add: np_and_def)
  qed
qed

text \<open>
  C7. For every dataset, every tier filter and any two expressions \<open>A\<close> and \<open>B\<close>, the
  mask that \<^verbatim>\<open>get_constraint\<close> builds for \<open>A|B\<close> is the elementwise disjunction of the
  masks it builds for \<open>A\<close> and for \<open>B\<close> under the same tier filter; when the shapes of
  the type and tier arrays make one of the calls raise, all three raise.
\<close>

theorem union_is_or:
  "get_constraint ds (A @ ''|'' @ B) tier =
     (case get_constraint ds A tier of
        Inl e \<Rightarrow> Inl e
      | Inr a \<Rightarrow> (case get_constraint ds B tier of
                    Inl e \<Rightarrow> Inl e
                  | Inr b \<Rightarrow> Inr (map2 (\<or>) a b)))"
proof -
  let ?tys = "types ds"
  let ?z = "replicate (length ?tys) False"
  let ?f = "\<lambda>s. fold (constraint_step ?tys) (map strip (split_on CHR ''|'' s)) ?z"
  have lz: "length ?z = length ?tys" by simp
  have la: "length (?f A) = length ?tys" by (rule length_fold_step) simp
  have lb: "length (?f B) = length ?tys" by (rule length_fold_step) simp
  have "?f (A @ ''|'' @ B) = fold (constraint_step ?tys) (map strip (split_on CHR ''|'' B)) (?f A)"
    by (simp add: split_on_append)
  also have "\<dots> = map2 (\<or>) (?f A) (?f B)"
    by (rule fold_step_or) (rule la)
  finally have u: "?f (A @ ''|'' @ B) = map2 (\<or>) (?f A) (?f B)" .
  show ?thesis
  proof (cases tier)
    case None
    then show ?thesis using u by (simp add: get_constraint_def)
  next
    case (Some t)
    let ?m = "map (\<lambda>x. x = t) (tiers ds)"
    have eq: "length (?f A) = length (?f B)" using la lb by simp
    have gA: "get_constraint ds A tier = np_and (?f A) ?m"
      and gB: "get_constraint ds B tier = np_and (?f B) ?m"
      and gU: "get_constraint ds (A @ ''|'' @ B) tier = np_and (?f (A @ ''|'' @ B)) ?m"
      using Some by (simp_all add: get_constraint_def)
    show ?thesis unfolding gA gB gU u by (rule np_and_or_distrib[OF eq])
  qed
qed

lemma get_constraint_total:
  "length (tiers ds) = length (types ds) \<Longrightarrow>
   \<exists>m. get_constraint ds e tier = Inr m \<and> length m = length (types ds)"
  by (cases tier) (auto simp: get_constraint_def np_and_def length_fold_step)

lemma strip_empty: "strip s = [] \<longleftrightarrow> (\<forall>c\<in>set s. py_isspace c)"
proof -
  have "(\<forall>x\<in>set (dropWhile py_isspace s). py_isspace x) \<longleftrightarrow> (\<forall>x\<in>set s. py_isspace x)"
  proof
    assume a: "\<forall>x\<in>set (dropWhile py_isspace s). py_isspace x"
    have "dropWhile py_isspace s = []"
    proof (rule ccontr)
      assume ne: "dropWhile py_isspace s \<noteq> []"
      then have "\<not> py_isspace (hd (dropWhile py_isspace s))" by (rule hd_dropWhile)
      moreover have "hd (dropWhile py_isspace s) \<in> set (dropWhile py_isspace s)"
        using ne by simp
      ultimately show False using a by blast
    qed
    then show "\<forall>x\<in>set s. py_isspace x" by (simp add: dropWhile_eq_Nil_conv)
  next
    assume "\<forall>x\<in>set s. py_isspace x"
    then show "\<forall>x\<in>set (dropWhile py_isspace s). py_isspace x"
      by (meson set_dropWhileD)
  qed
  then show ?thesis by (simp add: strip_def dropWhile_eq_Nil_conv)
qed

lemma split_on_no_sep: "sep \<notin> set s \<Longrightarrow> split_on sep s = [s]"
  by (induction s) (auto simp: Let_def)

lemma strip_no_bar: "strip s = [] \<Longrightarrow> CHR ''|'' \<notin> set s"
  by (auto simp: strip_empty py_isspace_def)

lemma constraint_step_zeros:
  "constraint_step tys t (replicate (length tys) False) = token_mask tys t"
  by (simp add: constraint_step_def token_mask_def list_eq_iff_nth_eq)

lemma token_mask_empty: "token_mask tys [] = map (\<lambda>t. t = []) tys"
  by (simp add: token_mask_def startswith_def)

lemma empty_expr_mask:
  assumes wf: "length (tiers ds) = length (types ds)" and e: "strip e = []"
  shows "get_constraint ds e tier =
    Inr (map2 (\<lambda>ty ti. ty = [] \<and> (case tier of None \<Rightarrow> True | Some t \<Rightarrow> ti = t))
          (types ds) (tiers ds))"
proof -
  have toks: "map strip (split_on CHR ''|'' e) = [[]]"
    using strip_no_bar[OF e] e by (simp add: split_on_no_sep)
  have f: "fold (constraint_step (types ds)) (map strip (split_on CHR ''|'' e))
             (replicate (length (types ds)) False) = map (\<lambda>t. t = []) (types ds)"
    unfolding toks by (simp add: constraint_step_zeros token_mask_empty)
  show ?thesis
  proof (cases tier)
    case None
    have "map (\<lambda>t. t = []) (types ds) = map2 (\<lambda>ty ti. ty = [] \<and> True) (types ds) (tiers ds)"
      using wf by (intro nth_equalityI) simp_all
    then show ?thesis using None unfolding get_constraint_def f Let_def by simp
  next
    case (Some t)
    have "map2 (\<and>) (map (\<lambda>t. t = []) (types ds)) (map (\<lambda>x. x = t) (tiers ds))
        = map2 (\<lambda>ty ti. ty = [] \<and> ti = t) (types ds) (tiers ds)"
      using wf by (intro nth_equalityI) simp_all
    then show ?thesis using Some wf unfolding get_constraint_def f Let_def
      by (simp add: np_and_def)
  qed
qed

text \<open>
  C4 (as stated, refuted). An expression that is empty after trimming raises nothing:
  \<^verbatim>\<open>get_constraint\<close> returns the all-false mask for it, and a malformed expression
  with an empty token (\<^verbatim>\<open>"a||"\<close>) gives the mask of its other tokens.
\<close>

theorem empty_expression_counterexample:
  "get_constraint \<lparr>types = [''a'', ''b''], tiers = [''t'', ''t'']\<rparr> ''  '' None
     = Inr [False, False] \<and>
   get_constraint \<lparr>types = [''a'', ''b''], tiers = [''t'', ''t'']\<rparr> ''a||'' None
     = Inr [True, False]"
  by (simp add: get_constraint_def strip_def py_isspace_def constraint_step_def
      token_mask_def startswith_def)

text \<open>
  C4 (amended). \<^verbatim>\<open>get_constraint\<close> has no validation of the expression: on a dataset
  with one type and one tier per trial it raises for no expression and returns a mask
  with one entry per trial; for an expression that is empty after trimming, the mask
  selects the trials whose type is the empty string and whose tier passes the filter
  (no trial at all when no type is empty).
\<close>

theorem get_constraint_never_raises:
  assumes "length (tiers ds) = length (types ds)"
  shows "(\<exists>m. get_constraint ds e tier = Inr m \<and> length m = length (types ds)) \<and>
         (strip e = [] \<longrightarrow>
            get_constraint ds e tier =
              Inr (map2 (\<lambda>ty ti. ty = [] \<and> (case tier of None \<Rightarrow> True | Some t \<Rightarrow> ti = t))
                    (types ds) (tiers ds)))"
  using get_constraint_total[OF assms] empty_expr_mask[OF assms] by blast

theorem get_constraint_never_raises_witness:
  "length (tiers \<lparr>types = [''a'', ''''], tiers = [''t'', ''t'']\<rparr>)
     = length (types \<lparr>types = [''a'', ''''], tiers = [''t'', ''t'']\<rparr>) \<and>
   strip '' '' = [] \<and>
   get_constraint \<lparr>types = [''a'', ''''], tiers = [''t'', ''t'']\<rparr> '' '' (Some ''t'')
     = Inr [False, True]"
  using get_constraint_never_raises
          [of "\<lparr>types = [''a'', ''''], tiers = [''t'', ''t'']\<rparr>" "'' ''" "Some ''t''"]
  by (simp add: strip_def py_isspace_def)

subsection \<open>Group assignment\<close>

text \<open>
  C8. With the tokens \<open>x\<close>, \<open>y\<close> and seven member datasets the group sizes are
  \<open>[3, 4]\<close>; with \<open>permute = 0\<close> the members get \<open>x, x, x, y, y, y, y\<close>, and with
  \<open>permute = 1\<close> the token list is rotated left by one, giving \<open>y, y, y, x, x, x, x\<close>.
\<close>

theorem group_assignment_example:
  "group_sizes 7 2 = [3, 4] \<and>
   assign_groups [''x'', ''y''] 7 0 = Inr [''x'', ''x'', ''x'', ''y'', ''y'', ''y'', ''y''] \<and>
   assign_groups [''x'', ''y''] 7 1 = Inr [''y'', ''y'', ''y'', ''x'', ''x'', ''x'', ''x'']"
  by code_simp

lemma split_tokens_nonempty: "split_tokens s \<noteq> []"
  by (simp add: split_tokens_def split_on_nonempty)

lemma assign_groups_underflow:
  assumes "t \<noteq> []" and "n div length t < 1"
  shows "assign_groups t n p = Inl (AssertionError ''not enough member datasets to do splits'')"
  using assms by (simp add: assign_groups_def Let_def)

text \<open>
  C9. For every non-empty token list \<open>t\<close> (the split of a string is never empty) and
  every member count \<open>n\<close> with \<open>n div length t < 1\<close>, the group assignment raises the
  assertion error; \<^verbatim>\<open>load_data\<close> raises it for every string with these tokens, whatever
  the datasets are, so neither a mask nor a sampler is built.
\<close>

theorem member_underflow_raises:
  assumes "t \<noteq> []" and "n div length t < 1"
  shows "assign_groups t n p = Inl (AssertionError ''not enough member datasets to do splits'') \<and>
         (\<forall>s. split_tokens s = t \<longrightarrow>
            (\<forall>dss b tier bsz sh.
               split_load_data (dss :: ('k \<times> dataset) list) s n p b tier bsz sh
                 = Inl (AssertionError ''not enough member datasets to do splits'')))"
  using assign_groups_underflow[OF assms] by (simp add: split_load_data_def)

theorem member_underflow_raises_witness:
  "[''x'', ''y'', ''z''] \<noteq> [] \<and> (2::nat) div length [''x'', ''y'', ''z''] < 1 \<and>
   split_tokens ''x,y,z'' = [''x'', ''y'', ''z''] \<and>
   assign_groups [''x'', ''y'', ''z''] 2 0
     = Inl (AssertionError ''not enough member datasets to do splits'') \<and>
   split_load_data ([] :: (nat \<times> dataset) list) ''x,y,z'' 2 0 False None 1 False
     = Inl (AssertionError ''not enough member datasets to do splits'')"
proof -
  have st: "split_tokens ''x,y,z'' = [''x'', ''y'', ''z'']"
    by (simp add: split_tokens_def strip_def py_isspace_def)
  have h1: "[''x'', ''y'', ''z''] \<noteq> ([] :: string list)" by simp
  have h2: "(2::nat) div length [''x'', ''y'', ''z''] < 1" by simp
  from member_underflow_raises[OF h1 h2, of 0] st h1 h2 show ?thesis by blast
qed

lemma last_group_size:
  fixes T n :: nat
  assumes "0 < T"
  shows "n - (T - 1) * (n div T) = n div T + n mod T"
proof -
  have "n = T * (n div T) + n mod T" using mult_div_mod_eq[of T n] by linarith
  also have "T * (n div T) = (T - 1) * (n div T) + n div T"
    using assms by (cases T) simp_all
  finally have "n = (T - 1) * (n div T) + (n div T + n mod T)" by simp
  then show ?thesis by linarith
qed

lemma group_sizes_eq:
  assumes "0 < T"
  shows "group_sizes n T = replicate (T - 1) (n div T) @ [n div T + n mod T]"
proof -
  have upt: "[0..<T] = [0..<T - 1] @ [T - 1]"
    using assms by (cases T) simp_all
  have first: "map (\<lambda>i. if i < T - 1 then n div T else n - (T - 1) * (n div T)) [0..<T - 1]
                 = replicate (T - 1) (n div T)"
    by (intro nth_equalityI) simp_all
  let ?f = "\<lambda>i. if i < T - 1 then n div T else n - (T - 1) * (n div T)"
  have "group_sizes n T = map ?f ([0..<T - 1] @ [T - 1])"
    unfolding group_sizes_def by (subst upt) (rule refl)
  also have "\<dots> = map ?f [0..<T - 1] @ [?f (T - 1)]"
    by (simp only: map_append list.map)
  also have "\<dots> = replicate (T - 1) (n div T) @ [n div T + n mod T]"
    unfolding first using last_group_size[OF assms, of n] by simp
  finally show ?thesis .
qed

lemma sum_group_sizes:
  assumes "0 < T"
  shows "sum_list (group_sizes n T) = n"
proof -
  have "sum_list (group_sizes n T) = (T - 1) * (n div T) + (n div T + n mod T)"
    by (simp add: group_sizes_eq[OF assms] sum_list_replicate)
  also have "\<dots> = T * (n div T) + n mod T"
    using assms by (cases T) simp_all
  finally show ?thesis by simp
qed

lemma concat_replicate_nth:
  "j < q * length xs \<Longrightarrow> concat (map (replicate q) xs) ! j = xs ! (j div q)"
proof (induction xs arbitrary: j)
  case Nil
  then show ?case by simp
next
  case (Cons x xs)
  show ?case
  proof (cases "j < q")
    case True
    then show ?thesis by (simp add: nth_append)
  next
    case False
    then have qpos: "0 < q" using Cons.prems by (cases q) simp_all
    from False have jq: "q \<le> j" by simp
    have lt: "j - q < q * length xs" using Cons.prems jq by simp
    have d: "j div q = Suc ((j - q) div q)"
      using jq qpos by (simp add: le_div_geq)
    show ?thesis using False Cons.IH[OF lt] by (simp add: nth_append d)
  qed
qed

lemma length_concat_replicate: "length (concat (map (replicate q) xs)) = q * length xs"
  by (induction xs) simp_all

lemma map2_replicate_const:
  "length ys = k \<Longrightarrow> map2 (\<lambda>g a. replicate g a) (replicate k q) ys = map (replicate q) ys"
  by (induction ys arbitrary: k) auto

lemma assign_groups_blocks:
  assumes ne: "t \<noteq> []" and q1: "1 \<le> n div length t"
  shows "assign_groups t n p =
     Inr (concat (map (replicate (n div length t))
                    (butlast (rotate (nat (p mod int (length t))) t)))
          @ replicate (n div length t + n mod length t)
              (last (rotate (nat (p mod int (length t))) t)))"
proof -
  let ?T = "length t"
  let ?r = "nat (p mod int ?T)"
  let ?rot = "rotate ?r t"
  have Tpos: "0 < ?T" using ne by simp
  have rlt: "?r < ?T" using Tpos by (simp add: nat_less_iff)
  have rot: "drop ?r t @ take ?r t = ?rot"
    using rlt by (simp add: rotate_drop_take)
  have rne: "?rot \<noteq> []" using ne by simp
  have split: "?rot = butlast ?rot @ [last ?rot]" using rne by simp
  have lb: "length (butlast ?rot) = ?T - 1" by simp
  have z: "map2 (\<lambda>g a. replicate g a) (group_sizes n ?T) ?rot
      = map (replicate (n div ?T)) (butlast ?rot) @ [replicate (n div ?T + n mod ?T) (last ?rot)]"
    apply (subst split)
    apply (simp only: group_sizes_eq[OF Tpos])
    apply (simp add: lb map2_replicate_const del: append_butlast_last_id)
    done
  show ?thesis
    using Tpos q1 unfolding assign_groups_def Let_def rot z by simp
qed


text \<open>
  C3 (as stated, refuted). With three tokens and five member datasets the group sizes
  are \<open>[1, 1, 3]\<close>: the last group is two larger than the first.
\<close>

theorem group_sizes_counterexample:
  "group_sizes 5 3 = [1, 1, 3] \<and>
   assign_groups [''a'', ''b'', ''c''] 5 0 = Inr [''a'', ''b'', ''c'', ''c'', ''c''] \<and>
   \<not> (group_sizes 5 3 ! 2 \<le> group_sizes 5 3 ! 0 + 1)"
  by code_simp

text \<open>
  C3 (amended). For every non-empty token list \<open>t\<close> of length \<open>T\<close>, every member count
  \<open>n\<close> with \<open>1 \<le> n div T\<close> and every permutation offset, the assignment succeeds and is
  a partition of the \<open>n\<close> members into \<open>T\<close> contiguous groups: the first \<open>T - 1\<close> groups
  have \<open>n div T\<close> members and the last has \<open>n div T + n mod T\<close> (the whole remainder, so
  the sizes differ by \<open>n mod T\<close>, which can be as large as \<open>T - 1\<close>); the sizes add up to
  \<open>n\<close>, and member \<open>j\<close> gets the token of group \<open>min (j div (n div T)) (T - 1)\<close> of the
  token list rotated left by \<open>permute mod T\<close>.
\<close>

theorem group_assignment_partition:
  assumes ne: "t \<noteq> []" and q1: "1 \<le> n div length t"
    and T: "T = length t" and q: "q = n div T"
    and rot: "rot = rotate (nat (p mod int T)) t"
  shows "group_sizes n T = replicate (T - 1) q @ [q + n mod T] \<and>
         sum_list (group_sizes n T) = n \<and>
         (\<exists>sts. assign_groups t n p = Inr sts \<and>
                sts = concat (map2 (\<lambda>g a. replicate g a) (group_sizes n T) rot) \<and>
                length sts = n \<and>
                (\<forall>j<n. sts ! j = rot ! min (j div q) (T - 1)))"
proof -
  have Tpos: "0 < T" using ne T by simp
  have qpos: "0 < q" using q1 q T by simp
  have gs: "group_sizes n T = replicate (T - 1) q @ [q + n mod T]"
    using group_sizes_eq[OF Tpos, of n] q by simp
  have sm: "sum_list (group_sizes n T) = n" by (rule sum_group_sizes[OF Tpos])
  have rne: "rot \<noteq> []" using ne rot by simp
  have lrot: "length rot = T" using rot T by simp
  let ?A = "concat (map (replicate q) (butlast rot))"
  let ?sts = "?A @ replicate (q + n mod T) (last rot)"
  have ag: "assign_groups t n p = Inr ?sts"
    using assign_groups_blocks[OF ne q1, of p] T q rot by simp
  have lA: "length ?A = q * (T - 1)"
    by (simp add: length_concat_replicate lrot)
  have n_eq: "n = q * (T - 1) + (q + n mod T)"
  proof -
    have "n = T * q + n mod T" unfolding q by simp
    also have "T * q = q * (T - 1) + q" using Tpos by (cases T) simp_all
    finally show ?thesis by simp
  qed
  have len: "length ?sts = n" using lA n_eq by simp
  have blocks: "?sts = concat (map2 (\<lambda>g a. replicate g a) (group_sizes n T) rot)"
  proof -
    have split: "rot = butlast rot @ [last rot]" using rne by simp
    have "map2 (\<lambda>g a. replicate g a) (group_sizes n T) rot
        = map (replicate q) (butlast rot) @ [replicate (q + n mod T) (last rot)]"
      apply (subst split)
      apply (simp only: gs)
      apply (simp add: lrot map2_replicate_const del: append_butlast_last_id)
      done
    then show ?thesis by simp
  qed
  have nth: "?sts ! j = rot ! min (j div q) (T - 1)" if j: "j < n" for j
  proof (cases "j < q * (T - 1)")
    case True
    then have jd: "j div q < T - 1"
      using qpos by (simp add: less_mult_imp_div_less mult.commute)
    have "?sts ! j = ?A ! j" using True lA by (simp add: nth_append)
    also have "\<dots> = butlast rot ! (j div q)"
      using True by (intro concat_replicate_nth) (simp add: lrot)
    also have "\<dots> = rot ! (j div q)"
      using jd lrot by (simp add: nth_butlast)
    finally show ?thesis using jd by (simp add: min_def)
  next
    case False
    then have ge: "q * (T - 1) \<le> j" by simp
    then have jd: "T - 1 \<le> j div q"
      using qpos by (metis div_le_mono nonzero_mult_div_cancel_left less_numeral_extra(3))
    have "j - q * (T - 1) < q + n mod T" using j n_eq ge by linarith
    then have "?sts ! j = last rot" using False lA by (simp add: nth_append)
    also have "\<dots> = rot ! (T - 1)" using rne lrot by (simp add: last_conv_nth)
    finally show ?thesis using jd by (simp add: min_def)
  qed
  show ?thesis using gs sm ag len blocks nth by auto
qed


theorem group_assignment_partition_witness:
  "[''a'', ''b'', ''c''] \<noteq> [] \<and> (1::nat) \<le> 8 div length [''a'', ''b'', ''c''] \<and>
   (3::nat) = length [''a'', ''b'', ''c''] \<and> (2::nat) = 8 div 3 \<and>
   [''b'', ''c'', ''a''] = rotate (nat (4 mod int 3)) [''a'', ''b'', ''c''] \<and>
   group_sizes 8 3 = [2, 2, 4] \<and>
   assign_groups [''a'', ''b'', ''c''] 8 4
     = Inr [''b'', ''b'', ''c'', ''c'', ''a'', ''a'', ''a'', ''a'']"
proof -
  have h1: "[''a'', ''b'', ''c''] \<noteq> ([] :: string list)" by simp
  have h2: "(1::nat) \<le> 8 div length [''a'', ''b'', ''c'']" by simp
  have h3: "(3::nat) = length [''a'', ''b'', ''c'']" by simp
  have h4: "(2::nat) = 8 div 3" by simp
  have h5: "[''b'', ''c'', ''a''] = rotate (nat (4 mod int 3)) [''a'', ''b'', ''c'']"
    by code_simp
  note inst = group_assignment_partition[OF h1 h2 h3 h4 h5]
  have gs: "group_sizes 8 3 = replicate (3 - 1) 2 @ [2 + 8 mod 3]"
    by (rule conjunct1[OF inst])
  have g: "group_sizes 8 3 = [2, 2, 4]"
    unfolding gs by code_simp
  have ex: "\<exists>sts. assign_groups [''a'', ''b'', ''c''] 8 4 = Inr sts \<and>
      sts = concat (map2 (\<lambda>g a. replicate g a) (group_sizes 8 3) [''b'', ''c'', ''a'']) \<and>
      length sts = 8 \<and> (\<forall>j<8. sts ! j = [''b'', ''c'', ''a''] ! min (j div 2) (3 - 1))"
    by (rule conjunct2[OF conjunct2[OF inst]])
  then obtain sts where a: "assign_groups [''a'', ''b'', ''c''] 8 4 = Inr sts"
    and s: "sts = concat (map2 (\<lambda>g a. replicate g a) (group_sizes 8 3) [''b'', ''c'', ''a''])"
    by (elim exE conjE)
  have s': "sts = [''b'', ''b'', ''c'', ''c'', ''a'', ''a'', ''a'', ''a'']"
    unfolding s g by code_simp
  have ev: "assign_groups [''a'', ''b'', ''c''] 8 4
     = Inr [''b'', ''b'', ''c'', ''c'', ''a'', ''a'', ''a'', ''a'']"
    using a unfolding s' .
  show ?thesis
    by (intro conjI h1 h2 h3 h4 h5 g ev)
qed

subsection \<open>The balanced sampler\<close>

lemma counter_get_add:
  "counter_get (counter_add x c) k = (if k = x then counter_get c k + 1 else counter_get c k)"
  by (induction c) (auto simp: counter_get_def)

lemma counter_add_keys: "fst ` set (counter_add x c) = insert x (fst ` set c)"
proof (induction c)
  case Nil
  show ?case by simp
next
  case (Cons kv c)
  obtain k v where kv: "kv = (k, v)" by (cases kv)
  show ?case using Cons by (cases "k = x") (simp_all add: kv insert_commute)
qed

lemma counter_add_distinct: "distinct (map fst c) \<Longrightarrow> distinct (map fst (counter_add x c))"
proof (induction c)
  case Nil
  then show ?case by simp
next
  case (Cons kv c)
  obtain k v where kv: "kv = (k, v)" by (cases kv)
  have "k \<notin> fst ` set (counter_add x c)" if "k \<noteq> x"
    using Cons.prems that by (simp add: counter_add_keys kv)
  then show ?case using Cons by (auto simp: kv)
qed

lemma fold_counter_add:
  "counter_get (fold counter_add xs c) k = counter_get c k + count_list xs k"
  by (induction xs arbitrary: c) (simp_all add: counter_get_add)

lemma fold_counter_keys: "fst ` set (fold counter_add xs c) = fst ` set c \<union> set xs"
  by (induction xs arbitrary: c) (simp_all add: counter_add_keys)

lemma fold_counter_distinct:
  "distinct (map fst c) \<Longrightarrow> distinct (map fst (fold counter_add xs c))"
  by (induction xs arbitrary: c) (simp_all add: counter_add_distinct)

lemma Counter_get: "counter_get (Counter xs) k = count_list xs k"
proof -
  have "counter_get [] k = 0" by (simp add: counter_get_def)
  then show ?thesis by (simp add: Counter_def fold_counter_add)
qed

lemma Counter_keys: "fst ` set (Counter xs) = set xs"
  by (simp add: Counter_def fold_counter_keys)

lemma Counter_distinct: "distinct (map fst (Counter xs))"
  by (simp add: Counter_def fold_counter_distinct)

lemma distinct_counter_entry:
  assumes "distinct (map fst c)" and "(k, v) \<in> set c"
  shows "counter_get c k = v"
  using assms by (simp add: counter_get_def)

lemma Counter_values: "set (map snd (Counter xs)) = count_list xs ` set xs"
proof (intro set_eqI iffI)
  fix v assume "v \<in> set (map snd (Counter xs))"
  then obtain k where kv: "(k, v) \<in> set (Counter xs)" by auto
  then have "k \<in> fst ` set (Counter xs)" by force
  then have "k \<in> set xs" by (simp only: Counter_keys)
  moreover have "v = count_list xs k"
    using distinct_counter_entry[OF Counter_distinct kv] by (simp add: Counter_get)
  ultimately show "v \<in> count_list xs ` set xs" by blast
next
  fix v assume "v \<in> count_list xs ` set xs"
  then obtain k where k: "k \<in> set xs" and v: "v = count_list xs k" by blast
  from k have "k \<in> fst ` set (Counter xs)" by (simp only: Counter_keys)
  then obtain w where kw: "(k, w) \<in> set (Counter xs)" by auto
  have "w = v"
    using distinct_counter_entry[OF Counter_distinct kw] v by (simp add: Counter_get)
  then show "v \<in> set (map snd (Counter xs))" using kw by force
qed

lemma py_min_Min: "xs \<noteq> [] \<Longrightarrow> py_min xs = Inr (Min (set xs))"
proof (cases xs)
  case Nil
  assume "xs \<noteq> []"
  with Nil show ?thesis by simp
next
  case (Cons a list)
  have "fold min list a = Min (set (a # list))" by (simp only: Min.set_eq_fold)
  then show ?thesis unfolding Cons by (simp add: py_min_def)
qed

lemma py_min_empty: "py_min [] = Inl ValueError"
  by (simp add: py_min_def)

lemma Counter_empty_iff: "Counter xs = [] \<longleftrightarrow> xs = []"
proof
  assume "Counter xs = []"
  then have "fst ` set (Counter xs) = {}" by simp
  then show "xs = []" by (simp only: Counter_keys set_empty)
next
  assume "xs = []"
  then show "Counter xs = []" by (simp add: Counter_def)
qed

lemma np_take_ok: "list_all (\<lambda>i. i < length a) ix \<Longrightarrow> np_take a ix = Inr (map ((!) a) ix)"
  by (simp add: np_take_def)

text \<open>The number of samples in shortest mode is the least per-category count.\<close>

lemma shortest_num_samples:
  assumes inr: "list_all (\<lambda>i. i < length tys) ix" and ne: "ix \<noteq> []"
  shows "\<exists>s. BalancedSubsetSampler_init ix tys ''shortest'' = Inr s \<and>
             indices s = ix \<and> length (weights s) = length ix \<and>
             replacement s = Some False \<and>
             num_samples s = Some (Min (count_list (map ((!) tys) ix) ` set (map ((!) tys) ix)))"
proof -
  let ?labels = "map ((!) tys) ix"
  have cne: "map snd (Counter ?labels) \<noteq> []"
    using ne by (simp add: Counter_empty_iff)
  have "py_min (map snd (Counter ?labels)) = Inr (Min (count_list ?labels ` set ?labels))"
    using py_min_Min[OF cne] by (simp only: Counter_values)
  then show ?thesis
    by (simp add: BalancedSubsetSampler_init_def np_take_ok[OF inr] Let_def)
qed


text \<open>
  C1 (as stated, refuted). Built in shortest mode from ten indices of which three have
  category \<open>A\<close> and seven have category \<open>B\<close>, the sampler has \<open>num_samples = 3\<close>
  and its length query returns 3, not \<open>2 * 3 = 6\<close>.
\<close>

theorem balanced_length_counterexample:
  "BalancedSubsetSampler_init [0, 1, 2, 3, 4, 5, 6, 7, 8, 9]
     [''A'', ''A'', ''A'', ''B'', ''B'', ''B'', ''B'', ''B'', ''B'', ''B''] ''shortest''
   = Inr \<lparr>indices = [0, 1, 2, 3, 4, 5, 6, 7, 8, 9], num_samples = Some 3,
           replacement = Some False,
           weights = [1 / 3, 1 / 3, 1 / 3, 1 / 7, 1 / 7, 1 / 7, 1 / 7, 1 / 7, 1 / 7, 1 / 7]\<rparr> \<and>
   BalancedSubsetSampler_len
     \<lparr>indices = [0, 1, 2, 3, 4, 5, 6, 7, 8, 9], num_samples = Some 3,
      replacement = Some False,
      weights = [1 / 3, 1 / 3, 1 / 3, 1 / 7, 1 / 7, 1 / 7, 1 / 7, 1 / 7, 1 / 7, 1 / 7]\<rparr>
   = Inr 3 \<and>
   (3::nat) \<noteq> 2 * 3"
  by code_simp

text \<open>
  C1 (amended). For every index list (within the range of the type labels) whose
  categories are \<open>A\<close> with three indices and \<open>B\<close> with seven, the constructor in
  shortest mode succeeds, the draw is without replacement, the length query returns 3
  (the least per-category count, not multiplied by the number of categories), every
  iteration emits 3 indices whatever the random draw is, and such a draw exists. The
  constructor is a function of its arguments, so the length is the same at every
  construction.
\<close>

theorem balanced_sampler_length:
  assumes inr: "list_all (\<lambda>i. i < length tys) ix"
    and cats: "set (map ((!) tys) ix) = {A, B}"
    and cA: "count_list (map ((!) tys) ix) A = 3"
    and cB: "count_list (map ((!) tys) ix) B = 7"
  shows "\<exists>s. BalancedSubsetSampler_init ix tys ''shortest'' = Inr s \<and>
             BalancedSubsetSampler_len s = Inr 3 \<and>
             replacement s = Some False \<and>
             (\<forall>draw. multinomial_draw (weights s) 3 False draw \<longrightarrow>
                (\<exists>out. BalancedSubsetSampler_iter s draw = Inr out \<and> length out = 3)) \<and>
             multinomial_draw (weights s) 3 False [0, 1, 2]"
proof -
  let ?labels = "map ((!) tys) ix"
  have ne: "ix \<noteq> []" using cats by auto
  from shortest_num_samples[OF inr ne] obtain s where
    init: "BalancedSubsetSampler_init ix tys ''shortest'' = Inr s"
    and li: "indices s = ix"
    and lw: "length (weights s) = length ix"
    and rp: "replacement s = Some False"
    and ns: "num_samples s = Some (Min (count_list ?labels ` set ?labels))"
    by blast
  have "count_list ?labels ` set ?labels = {3, 7}"
    unfolding cats using cA cB by simp
  then have ns3: "num_samples s = Some 3" using ns by simp
  have len: "BalancedSubsetSampler_len s = Inr 3"
    by (simp add: BalancedSubsetSampler_len_def ns3)
  have it: "\<exists>out. BalancedSubsetSampler_iter s draw = Inr out \<and> length out = 3"
    if "multinomial_draw (weights s) 3 False draw" for draw
    using that by (simp add: BalancedSubsetSampler_iter_def ns3 multinomial_draw_def li lw)
  have "count_list ?labels A \<le> length ?labels" by (rule count_le_length)
  then have "3 \<le> length ix" using cA by simp
  then have dr: "multinomial_draw (weights s) 3 False [0, 1, 2]"
    by (auto simp: multinomial_draw_def lw)
  show ?thesis using init len rp it dr by blast
qed


theorem balanced_sampler_length_witness:
  "list_all (\<lambda>i. i < length [''A'', ''A'', ''A'', ''B'', ''B'', ''B'', ''B'', ''B'', ''B'', ''B''])
     [0, 1, 2, 3, 4, 5, 6, 7, 8, 9] \<and>
   (\<exists>s. BalancedSubsetSampler_init [0, 1, 2, 3, 4, 5, 6, 7, 8, 9]
           [''A'', ''A'', ''A'', ''B'', ''B'', ''B'', ''B'', ''B'', ''B'', ''B''] ''shortest'' = Inr s \<and>
        BalancedSubsetSampler_len s = Inr 3 \<and>
        multinomial_draw (weights s) 3 False [0, 1, 2])"
proof -
  let ?tys = "[''A'', ''A'', ''A'', ''B'', ''B'', ''B'', ''B'', ''B'', ''B'', ''B'']"
  let ?ix = "[0, 1, 2, 3, 4, 5, 6, 7, 8, 9] :: nat list"
  have lab: "map ((!) ?tys) ?ix = ?tys" by code_simp
  have h1: "list_all (\<lambda>i. i < length ?tys) ?ix" by simp
  have h2: "set (map ((!) ?tys) ?ix) = {''A'', ''B''}" unfolding lab by auto
  have h3: "count_list (map ((!) ?tys) ?ix) ''A'' = 3" unfolding lab by simp
  have h4: "count_list (map ((!) ?tys) ?ix) ''B'' = 7" unfolding lab by simp
  from balanced_sampler_length[OF h1 h2 h3 h4] h1 show ?thesis by blast
qed

subsection \<open>Size matching: order of processing\<close>

text \<open>
  C6. There are three masks \<open>M1\<close>, \<open>M2\<close>, \<open>M3\<close> over ten trials, none with a union in
  its expression, where \<open>M1\<close> and \<open>M2\<close> share the prefix of four true positions and
  \<open>min_n = 2\<close> truncates inside that prefix, such that size matching in the order
  \<open>M1, M2, M3\<close> returns the empty mask for \<open>M3\<close> while the order \<open>M3, M1, M2\<close> returns
  \<open>M3\<close> unchanged: the result depends on the order of the input.
\<close>

theorem equalizer_order_dependence:
  "\<exists>M1 M2 M3 r1 r2.
     M1 = [True, True, True, True, False, False, False, False, False, False] \<and>
     M2 = [True, True, True, True, True, False, False, False, False, False] \<and>
     M3 = [False, False, True, True, False, False, False, False, False, False] \<and>
     take 4 M1 = replicate 4 True \<and> take 4 M2 = replicate 4 True \<and>
     np_min (map np_sum [M1, M2, M3]) = Inr 2 \<and>
     shrink_constraints None [M1, M2, M3] [''a'', ''b'', ''c''] = Inr r1 \<and>
     shrink_constraints None [M3, M1, M2] [''c'', ''a'', ''b''] = Inr r2 \<and>
     r1 ! 2 = replicate 10 False \<and>
     r2 ! 0 = M3 \<and>
     r1 ! 2 \<noteq> r2 ! 0"
proof -
  let ?M1 = "[True, True, True, True, False, False, False, False, False, False]"
  let ?M2 = "[True, True, True, True, True, False, False, False, False, False]"
  let ?M3 = "[False, False, True, True, False, False, False, False, False, False]"
  let ?T = "[True, True, False, False, False, False, False, False, False, False]"
  let ?Z = "[False, False, False, False, False, False, False, False, False, False]"
  have p1: "take 4 ?M1 = replicate 4 True" by code_simp
  have p2: "take 4 ?M2 = replicate 4 True" by code_simp
  have mn: "np_min (map np_sum [?M1, ?M2, ?M3]) = Inr 2" by code_simp
  have a: "shrink_constraints None [?M1, ?M2, ?M3] [''a'', ''b'', ''c''] = Inr [?T, ?T, ?Z]"
    by code_simp
  have b: "shrink_constraints None [?M3, ?M1, ?M2] [''c'', ''a'', ''b''] = Inr [?M3, ?T, ?T]"
    by code_simp
  have c: "[?T, ?T, ?Z] ! 2 = replicate 10 False" by code_simp
  have d: "[?M3, ?T, ?T] ! 0 = ?M3" by simp
  have e: "[?T, ?T, ?Z] ! 2 \<noteq> [?M3, ?T, ?T] ! 0" by code_simp
  show ?thesis
    apply (rule exI[of _ ?M1])
    apply (rule exI[of _ ?M2])
    apply (rule exI[of _ ?M3])
    apply (rule exI[of _ "[?T, ?T, ?Z]"])
    apply (rule exI[of _ "[?M3, ?T, ?T]"])
    apply (intro conjI refl p1 p2 mn a b c d e)
    done
qed

subsection \<open>The loaders\<close>

lemma length_iand_all: "iand_all u cs = Inr cs' \<Longrightarrow> length cs' = length cs"
  by (induction cs arbitrary: cs') (auto split: sum.splits)

lemma length_shrink_loop:
  "shrink_loop m cs sts = Inr out \<Longrightarrow> length out = min (length cs) (length sts)"
proof (induction m cs sts arbitrary: out rule: shrink_loop.induct)
  case (1 min_n sts)
  then show ?case by simp
next
  case (2 min_n c cs)
  then show ?case by simp
next
  case (3 min_n c cs st sts)
  let ?c2 = "if CHR ''|'' \<notin> set st then truncate_mask min_n c else c"
  let ?u = "map2 (=) c ?c2"
  from "3.prems" obtain cs' new_con where
    ia: "iand_all ?u cs = Inr cs'" and
    rec: "shrink_loop min_n cs' sts = Inr new_con" and
    out: "out = ?c2 # new_con"
    by (auto simp: Let_def split: sum.splits)
  have "length new_con = min (length cs') (length sts)"
    using "3.IH"[OF refl refl ia rec] .
  then show ?case using out length_iand_all[OF ia] by simp
qed

lemma length_shrink_constraints:
  "shrink_constraints tier cs sts = Inr out \<Longrightarrow> length out = min (length cs) (length sts) \<or> out = cs"
  by (auto simp: shrink_constraints_def length_shrink_loop split: if_splits sum.splits)

lemma length_build_constraints:
  "build_constraints ds sts tier = Inr cs \<Longrightarrow> length cs = min (length ds) (length sts)"
  by (induction ds sts tier arbitrary: cs rule: build_constraints.induct)
     (auto split: sum.splits)

lemma make_loader_unbound:
  "make_loader (Some ''train'') bsz True False ds c = Inl (UnboundLocalError ''types'')"
  by (simp add: make_loader_def)

lemma loaders_loop_unbound:
  "loaders_loop (Some ''train'') bsz True False dss sts cs =
     (if dss = [] \<or> sts = [] \<or> cs = [] then Inr []
      else Inl (UnboundLocalError ''types''))"
proof (cases dss)
  case Nil
  then show ?thesis by simp
next
  case (Cons kd rest)
  obtain k d where kd: "kd = (k, d)" by (cases kd)
  show ?thesis
  proof (cases sts)
    case Nil
    then show ?thesis using Cons by simp
  next
    case st: (Cons st sts')
    show ?thesis
    proof (cases cs)
      case Nil
      then show ?thesis using Cons st by simp
    next
      case c: (Cons c cs')
      show ?thesis unfolding Cons kd st c by (simp add: make_loader_unbound)
    qed
  qed
qed


text \<open>
  C10 (as stated, refuted). With \<^verbatim>\<open>tier='train'\<close>, \<^verbatim>\<open>balanced=True\<close> and
  \<^verbatim>\<open>merge_noise_types=False\<close>, a call with no dataset returns the empty set of loaders
  and raises nothing; and a call that asks for size matching over two datasets with
  different numbers of trials raises \<^verbatim>\<open>ValueError\<close> in the size-matching loop, before
  any sampler is constructed.
\<close>

theorem unbound_types_counterexample:
  "get_loaders None ([] :: (nat \<times> dataset) list) (Some ''train'') 1 ArgNone True False False
     = Inr [] \<and>
   get_loaders (Some ''stimulus.Clip'')
     [(0::nat, \<lparr>types = [''stimulus.Clip'', ''stimulus.Clip''], tiers = [''train'', ''train'']\<rparr>),
      (1, \<lparr>types = [''stimulus.Clip'', ''stimulus.Clip'', ''stimulus.Clip''],
          tiers = [''train'', ''train'', ''train'']\<rparr>)]
     (Some ''train'') 1 ArgNone True False True
     = Inl ValueError"
  by code_simp

text \<open>
  C10 (amended). With \<^verbatim>\<open>tier='train'\<close>, \<^verbatim>\<open>balanced=True\<close> and
  \<^verbatim>\<open>merge_noise_types=False\<close>, no call returns a loader: the result is an exception or
  the empty set of loaders. Whenever there is at least one dataset and one expression
  and the masks are built (and size-matched, if asked for) without an exception, the
  call raises \<^verbatim>\<open>UnboundLocalError\<close> for \<^verbatim>\<open>types\<close> at the first dataset.
\<close>

theorem balanced_without_merge_unbound:
  fixes datasets :: "('k \<times> dataset) list"
  shows "(get_loaders self_st datasets (Some ''train'') bsz arg True False shrink = Inr [] \<or>
          (\<exists>e. get_loaders self_st datasets (Some ''train'') bsz arg True False shrink = Inl e)) \<and>
         (resolve_stimulus_types self_st (length datasets) arg = Inr sts \<longrightarrow>
          build_constraints (map snd datasets) sts (Some ''train'') = Inr cs \<longrightarrow>
          (if shrink then shrink_constraints (Some ''train'') cs sts else Inr cs) = Inr cs' \<longrightarrow>
          datasets \<noteq> [] \<longrightarrow> sts \<noteq> [] \<longrightarrow>
          get_loaders self_st datasets (Some ''train'') bsz arg True False shrink
            = Inl (UnboundLocalError ''types''))"
proof
  let ?g = "get_loaders self_st datasets (Some ''train'') bsz arg True False shrink"
  show "?g = Inr [] \<or> (\<exists>e. ?g = Inl e)"
    unfolding get_loaders_def
    by (auto simp: loaders_loop_unbound split: sum.splits)
next
  show "resolve_stimulus_types self_st (length datasets) arg = Inr sts \<longrightarrow>
          build_constraints (map snd datasets) sts (Some ''train'') = Inr cs \<longrightarrow>
          (if shrink then shrink_constraints (Some ''train'') cs sts else Inr cs) = Inr cs' \<longrightarrow>
          datasets \<noteq> [] \<longrightarrow> sts \<noteq> [] \<longrightarrow>
          get_loaders self_st datasets (Some ''train'') bsz arg True False shrink
            = Inl (UnboundLocalError ''types'')"
  proof (intro impI)
    assume r: "resolve_stimulus_types self_st (length datasets) arg = Inr sts"
      and b: "build_constraints (map snd datasets) sts (Some ''train'') = Inr cs"
      and s: "(if shrink then shrink_constraints (Some ''train'') cs sts else Inr cs) = Inr cs'"
      and d: "datasets \<noteq> []" and t: "sts \<noteq> []"
    have lcs: "length cs = min (length datasets) (length sts)"
      using length_build_constraints[OF b] by simp
    then have cne: "cs \<noteq> []" using d t by (cases datasets; cases sts) auto
    have "cs' \<noteq> []"
    proof (cases shrink)
      case True
      then have "shrink_constraints (Some ''train'') cs sts = Inr cs'" using s by simp
      from length_shrink_constraints[OF this] cne t show ?thesis
        by (cases cs; cases sts) auto
    next
      case False
      then show ?thesis using s cne by simp
    qed
    then have "loaders_loop (Some ''train'') bsz True False datasets sts cs'
        = Inl (UnboundLocalError ''types'')"
      using d t by (simp add: loaders_loop_unbound)
    then show "get_loaders self_st datasets (Some ''train'') bsz arg True False shrink
            = Inl (UnboundLocalError ''types'')"
      unfolding get_loaders_def using r b s by simp
  qed
qed


theorem balanced_without_merge_unbound_witness:
  "resolve_stimulus_types (Some ''stimulus.Clip'')
     (length [(0::nat, \<lparr>types = [''stimulus.Clip'', ''b''], tiers = [''train'', ''train'']\<rparr>)])
     ArgNone = Inr [''stimulus.Clip''] \<and>
   build_constraints
     (map snd [(0::nat, \<lparr>types = [''stimulus.Clip'', ''b''], tiers = [''train'', ''train'']\<rparr>)])
     [''stimulus.Clip''] (Some ''train'') = Inr [[True, False]] \<and>
   [(0::nat, \<lparr>types = [''stimulus.Clip'', ''b''], tiers = [''train'', ''train'']\<rparr>)] \<noteq> [] \<and>
   get_loaders (Some ''stimulus.Clip'')
     [(0::nat, \<lparr>types = [''stimulus.Clip'', ''b''], tiers = [''train'', ''train'']\<rparr>)]
     (Some ''train'') 1 ArgNone True False False
     = Inl (UnboundLocalError ''types'')"
proof -
  let ?D = "[(0::nat, \<lparr>types = [''stimulus.Clip'', ''b''], tiers = [''train'', ''train'']\<rparr>)]"
  have r: "resolve_stimulus_types (Some ''stimulus.Clip'') (length ?D) ArgNone
             = Inr [''stimulus.Clip'']"
    by code_simp
  have b: "build_constraints (map snd ?D) [''stimulus.Clip''] (Some ''train'')
             = Inr [[True, False]]"
    by code_simp
  have s: "(if False then shrink_constraints (Some ''train'') [[True, False]] [''stimulus.Clip'']
            else Inr [[True, False]]) = Inr [[True, False]]"
    by simp
  have d: "?D \<noteq> []" by simp
  have t: "[''stimulus.Clip''] \<noteq> ([] :: string list)" by simp
  note inst = balanced_without_merge_unbound
    [of "Some ''stimulus.Clip''" ?D 1 ArgNone False "[''stimulus.Clip'']" "[[True, False]]"
        "[[True, False]]"]
  have "get_loaders (Some ''stimulus.Clip'') ?D (Some ''train'') 1 ArgNone True False False
     = Inl (UnboundLocalError ''types'')"
    using conjunct2[OF inst] r b s d t by blast
  then show ?thesis using r b d by blast
qed

subsection \<open>Size matching: cardinalities and the cascade\<close>

lemma length_cumsum_from: "length (cumsum_from acc c) = length c"
  by (induction c arbitrary: acc) (simp_all add: Let_def)

lemma length_truncate_mask: "length (truncate_mask n c) = length c"
  by (simp add: truncate_mask_def cumsum_def length_cumsum_from)

lemma truncate_from_subset:
  "p < length c \<Longrightarrow> map2 (\<lambda>b k. b \<and> k \<le> n) c (cumsum_from acc c) ! p \<Longrightarrow> c ! p"
  by (simp add: length_cumsum_from)

lemma truncate_mask_subset: "p < length c \<Longrightarrow> truncate_mask n c ! p \<Longrightarrow> c ! p"
  by (simp add: truncate_mask_def cumsum_def length_cumsum_from)

lemma np_sum_Cons: "np_sum (b # c) = (if b then 1 else 0) + np_sum c"
  by (simp add: np_sum_def)

lemma np_sum_truncate_from:
  "np_sum (map2 (\<lambda>b k. b \<and> k \<le> n) c (cumsum_from acc c)) = min (np_sum c) (n - acc)"
proof (induction c arbitrary: acc)
  case Nil
  show ?case by (simp add: np_sum_def)
next
  case (Cons b c)
  show ?case
  proof (cases b)
    case True
    show ?thesis
      using Cons.IH[of "acc + 1"] True
      by (cases "acc + 1 \<le> n") (simp_all add: np_sum_Cons Let_def)
  next
    case False
    then show ?thesis using Cons.IH[of acc] by (simp add: np_sum_Cons Let_def)
  qed
qed

lemma np_sum_truncate_mask: "np_sum (truncate_mask n c) = min (np_sum c) n"
  using np_sum_truncate_from[of n c 0] by (simp add: truncate_mask_def cumsum_def)

lemma np_min_Min: "xs \<noteq> [] \<Longrightarrow> np_min xs = Inr (Min (set xs))"
proof (cases xs)
  case Nil
  assume "xs \<noteq> []"
  with Nil show ?thesis by simp
next
  case (Cons a list)
  have "fold min list a = Min (set (a # list))" by (simp only: Min.set_eq_fold)
  then show ?thesis unfolding Cons by (simp add: np_min_def)
qed

lemma iand_all_same_length:
  "\<forall>c3\<in>set cs. length c3 = length u \<Longrightarrow>
   iand_all u cs = Inr (map (\<lambda>c3. map2 (\<and>) c3 u) cs)"
  by (induction cs) (simp_all add: np_iand_def)

text \<open>The mask taken for one pass of the loop and the vector \<open>untouched\<close> of that pass.\<close>

lemma untouched_nth:
  assumes c2: "\<And>q. q < length c \<Longrightarrow> c2 ! q \<Longrightarrow> c ! q" and l: "length c2 = length c"
    and p: "p < length c"
  shows "map2 (=) c c2 ! p = (c ! p \<longrightarrow> c2 ! p)"
  using c2[OF p] l p by auto


lemma length_pass_mask:
  "length (if CHR ''|'' \<notin> set st then truncate_mask n c else c) = length c"
  by (simp add: length_truncate_mask)

lemma pass_mask_subset:
  "p < length c \<Longrightarrow> (if CHR ''|'' \<notin> set st then truncate_mask n c else c) ! p \<Longrightarrow> c ! p"
  by (auto dest: truncate_mask_subset split: if_splits)

lemma shrink_loop_step:
  assumes "\<forall>c3\<in>set cs. length c3 = length c"
  shows "shrink_loop n (c # cs) (st # sts) =
     (case shrink_loop n
             (map (\<lambda>c3. map2 (\<and>) c3
                     (map2 (=) c (if CHR ''|'' \<notin> set st then truncate_mask n c else c))) cs)
             sts of
        Inl e \<Rightarrow> Inl e
      | Inr out \<Rightarrow> Inr ((if CHR ''|'' \<notin> set st then truncate_mask n c else c) # out))"
proof -
  let ?c2 = "if CHR ''|'' \<notin> set st then truncate_mask n c else c"
  let ?u = "map2 (=) c ?c2"
  have lu: "length ?u = length c" by (simp add: length_truncate_mask)
  have "\<forall>c3\<in>set cs. length c3 = length ?u" using assms lu by simp
  from iand_all_same_length[OF this]
  have "iand_all ?u cs = Inr (map (\<lambda>c3. map2 (\<and>) c3 ?u) cs)" .
  then show ?thesis by (simp add: Let_def)
qed

lemma shrink_loop_total:
  assumes "\<forall>m\<in>set cs. length m = L" and "length cs \<le> length sts"
  shows "\<exists>out. shrink_loop n cs sts = Inr out \<and> length out = length cs \<and>
               (\<forall>m\<in>set out. length m = L)"
  using assms
proof (induction sts arbitrary: cs)
  case Nil
  then show ?case by simp
next
  case (Cons st sts')
  show ?case
  proof (cases cs)
    case Nil
    then show ?thesis by simp
  next
    case cs: (Cons c cs0)
    let ?c2 = "if CHR ''|'' \<notin> set st then truncate_mask n c else c"
    let ?cs' = "map (\<lambda>c3. map2 (\<and>) c3 (map2 (=) c ?c2)) cs0"
    have lc: "length c = L" and lcs: "\<forall>c3\<in>set cs0. length c3 = length c"
      using Cons.prems(1) cs by simp_all
    have l': "\<forall>m\<in>set ?cs'. length m = L"
      using Cons.prems(1) cs by (auto simp: length_truncate_mask)
    have len: "length ?cs' \<le> length sts'" using Cons.prems(2) cs by simp
    from Cons.IH[OF l' len] obtain out where
      o: "shrink_loop n ?cs' sts' = Inr out" and lo: "length out = length ?cs'"
      and mo: "\<forall>m\<in>set out. length m = L" by blast
    have "shrink_loop n (c # cs0) (st # sts') = Inr (?c2 # out)"
      unfolding shrink_loop_step[OF lcs] o by simp
    moreover have "length ?c2 = L" using lc by (simp add: length_truncate_mask)
    ultimately show ?thesis using lo mo cs by simp
  qed
qed


lemma cascade_nth:
  assumes "i < length cs" and "length (cs ! i) = L" and "length u = L" and "p < L"
  shows "map (\<lambda>c3. map2 (\<and>) c3 u) cs ! i ! p = (cs ! i ! p \<and> u ! p)"
  using assms by simp

lemma all_less_Suc_shift:
  "(\<forall>j<Suc k. P j) \<longleftrightarrow> P 0 \<and> (\<forall>j<k. P (Suc j))"
proof
  assume a: "\<forall>j<Suc k. P j"
  then have "P 0" by simp
  moreover have "P (Suc j)" if "j < k" for j using a that by simp
  ultimately show "P 0 \<and> (\<forall>j<k. P (Suc j))" by simp
next
  assume a: "P 0 \<and> (\<forall>j<k. P (Suc j))"
  show "\<forall>j<Suc k. P j"
  proof (intro allI impI)
    fix j assume "j < Suc k"
    then show "P j" using a by (cases j) simp_all
  qed
qed

lemma shrink_loop_union_nth:
  assumes "\<forall>m\<in>set cs. length m = L" and "length cs \<le> length sts"
    and "shrink_loop n cs sts = Inr out" and "k < length cs"
    and "CHR ''|'' \<in> set (sts ! k)" and "p < L"
  shows "out ! k ! p = (cs ! k ! p \<and> (\<forall>j<k. cs ! j ! p \<longrightarrow> out ! j ! p))"
  using assms
proof (induction sts arbitrary: cs out k)
  case Nil
  then show ?case by simp
next
  case (Cons st sts')
  from Cons.prems(4) obtain c cs0 where cs: "cs = c # cs0" by (cases cs) auto
  define c2 where "c2 = (if CHR ''|'' \<notin> set st then truncate_mask n c else c)"
  define u where "u = map2 (=) c c2"
  define cs' where "cs' = map (\<lambda>c3. map2 (\<and>) c3 u) cs0"
  have lc: "length c = L" and lcs: "\<forall>c3\<in>set cs0. length c3 = length c"
    and lcs0: "\<forall>m\<in>set cs0. length m = L"
    using Cons.prems(1) cs by simp_all
  have lc2: "length c2 = length c" unfolding c2_def by (rule length_pass_mask)
  have lu: "length u = L" using lc lc2 by (simp add: u_def)
  have l': "\<forall>m\<in>set cs'. length m = L"
    using lcs0 lu by (simp add: cs'_def)
  have len: "length cs' \<le> length sts'" using Cons.prems(2) cs by (simp add: cs'_def)
  from shrink_loop_total[OF l' len, of n] obtain out' where
    o: "shrink_loop n cs' sts' = Inr out'" by blast
  have step: "shrink_loop n (c # cs0) (st # sts') =
      (case shrink_loop n cs' sts' of Inl e \<Rightarrow> Inl e | Inr out \<Rightarrow> Inr (c2 # out))"
    unfolding cs'_def u_def c2_def by (rule shrink_loop_step[OF lcs])
  have out: "out = c2 # out'"
    using Cons.prems(3) unfolding cs step o by simp
  have pc: "p < length c" using lc Cons.prems(6) by simp
  have sub: "c ! q" if "q < length c" and "c2 ! q" for q
    using that unfolding c2_def by (rule pass_mask_subset)
  have up: "u ! p = (c ! p \<longrightarrow> c2 ! p)"
    unfolding u_def by (rule untouched_nth[OF sub lc2 pc])
  show ?case
  proof (cases k)
    case 0
    then have "CHR ''|'' \<in> set st" using Cons.prems(5) by simp
    then have "c2 = c" by (simp add: c2_def)
    then show ?thesis using 0 cs out by simp
  next
    case (Suc k')
    have k0: "k' < length cs0" using Cons.prems(4) cs Suc by simp
    then have k': "k' < length cs'" by (simp add: cs'_def)
    have bar: "CHR ''|'' \<in> set (sts' ! k')" using Cons.prems(5) Suc by simp
    have IH: "out' ! k' ! p = (cs' ! k' ! p \<and> (\<forall>j<k'. cs' ! j ! p \<longrightarrow> out' ! j ! p))"
      by (rule Cons.IH[OF l' len o k' bar Cons.prems(6)])
    have nth': "cs' ! i ! p = (cs0 ! i ! p \<and> u ! p)" if i: "i < length cs0" for i
    proof -
      have "length (cs0 ! i) = L" using lcs0 i by simp
      from cascade_nth[OF i this lu Cons.prems(6)] show ?thesis by (simp only: cs'_def)
    qed
    have nthj: "cs' ! j ! p = (cs0 ! j ! p \<and> u ! p)" if "j < k'" for j
      by (rule nth') (use that k0 in linarith)
    have a: "cs' ! k' ! p = (cs0 ! k' ! p \<and> u ! p)" by (rule nth'[OF k0])
    have e1: "out ! k ! p = out' ! k' ! p" using out Suc by simp
    have e2: "cs ! k ! p = cs0 ! k' ! p" using cs Suc by simp
    have e3: "(\<forall>j<k. cs ! j ! p \<longrightarrow> out ! j ! p)
        \<longleftrightarrow> (c ! p \<longrightarrow> c2 ! p) \<and> (\<forall>j<k'. cs0 ! j ! p \<longrightarrow> out' ! j ! p)"
      unfolding Suc all_less_Suc_shift cs out by simp
    show ?thesis
      unfolding e1 e2 e3 IH a up[symmetric] using nthj by blast
  qed
qed


lemma shrink_constraints_loop:
  assumes "ms \<noteq> []" and "tier = None \<or> tier = Some ''train'' \<or> tier = Some ''validation''"
  shows "shrink_constraints tier ms sts = shrink_loop (Min (set (map np_sum ms))) ms sts"
proof -
  have "np_min (map np_sum ms) = Inr (Min (set (map np_sum ms)))"
    by (rule np_min_Min) (use assms(1) in simp)
  then show ?thesis using assms(2) by (auto simp: shrink_constraints_def)
qed

lemma shrink_constraints_other_tier:
  assumes "\<not> (tier = None \<or> tier = Some ''train'' \<or> tier = Some ''validation'')"
  shows "shrink_constraints tier ms sts = Inr ms"
  using assms by (auto simp: shrink_constraints_def)

text \<open>
  C5 (as stated, refuted). A mask whose expression has a union is not returned as it
  came in when an earlier mask was truncated at a position the union mask selects: with
  \<open>min_n = 2\<close> the first mask loses its third position, and \<^verbatim>\<open>c3 &= untouched\<close> clears
  that position of the union mask before its own pass.
\<close>

theorem union_mask_counterexample:
  "shrink_constraints None [[True, True, True], [False, True, True]] [''a'', ''x|y'']
     = Inr [[True, True, False], [False, True, False]] \<and>
   [False, True, False] \<noteq> [False, True, True]"
  by code_simp

text \<open>
  C5 (amended). For masks of one common length, a mask whose expression has a union is
  never truncated by the cumulative count; it is returned as it stands when its pass
  comes, which is its input without the positions that an earlier mask selected on
  input and did not keep. So it is returned unchanged whenever every earlier mask is
  returned unchanged, in particular when it is the first of the list.
\<close>

theorem union_mask_cascade:
  assumes len: "\<forall>m\<in>set ms. length m = L" and sts: "length ms \<le> length sts"
    and k: "k < length ms" and bar: "CHR ''|'' \<in> set (sts ! k)"
  shows "\<exists>out. shrink_constraints tier ms sts = Inr out \<and> length out = length ms \<and>
               length (out ! k) = L \<and>
               (\<forall>p<L. out ! k ! p = (ms ! k ! p \<and> (\<forall>j<k. ms ! j ! p \<longrightarrow> out ! j ! p))) \<and>
               ((\<forall>j<k. out ! j = ms ! j) \<longrightarrow> out ! k = ms ! k)"
proof -
  have ne: "ms \<noteq> []" using k by auto
  have lk: "length (ms ! k) = L" using len k by simp
  have core: "\<exists>out. shrink_constraints tier ms sts = Inr out \<and> length out = length ms \<and>
               length (out ! k) = L \<and>
               (\<forall>p<L. out ! k ! p = (ms ! k ! p \<and> (\<forall>j<k. ms ! j ! p \<longrightarrow> out ! j ! p)))"
  proof (cases "tier = None \<or> tier = Some ''train'' \<or> tier = Some ''validation''")
    case True
    let ?n = "Min (set (map np_sum ms))"
    from shrink_loop_total[OF len sts, of ?n] obtain out where
      o: "shrink_loop ?n ms sts = Inr out" and lo: "length out = length ms"
      and mo: "\<forall>m\<in>set out. length m = L" by blast
    have "out ! k \<in> set out" using k lo by simp
    then have lok: "length (out ! k) = L" using mo by blast
    have nth: "out ! k ! p = (ms ! k ! p \<and> (\<forall>j<k. ms ! j ! p \<longrightarrow> out ! j ! p))" if "p < L" for p
      by (rule shrink_loop_union_nth[OF len sts o k bar that])
    show ?thesis
      unfolding shrink_constraints_loop[OF ne True] using o lo lok nth by blast
  next
    case False
    show ?thesis
      unfolding shrink_constraints_other_tier[OF False] using lk by auto
  qed
  then obtain out where o: "shrink_constraints tier ms sts = Inr out"
    and lo: "length out = length ms" and lok: "length (out ! k) = L"
    and nth: "\<forall>p<L. out ! k ! p = (ms ! k ! p \<and> (\<forall>j<k. ms ! j ! p \<longrightarrow> out ! j ! p))"
    by blast
  have "out ! k = ms ! k" if same: "\<forall>j<k. out ! j = ms ! j"
  proof (rule nth_equalityI)
    show "length (out ! k) = length (ms ! k)" using lok lk by simp
  next
    fix p assume "p < length (out ! k)"
    then have p: "p < L" using lok by simp
    have "out ! k ! p = (ms ! k ! p \<and> (\<forall>j<k. ms ! j ! p \<longrightarrow> out ! j ! p))"
      using nth p by blast
    then show "out ! k ! p = ms ! k ! p" using same by auto
  qed
  then show ?thesis using o lo lok nth by blast
qed


theorem union_mask_cascade_witness:
  "length [[True, True, True], [False, True, True]] \<le> length [''a'', ''x|y''] \<and>
   (1::nat) < length [[True, True, True], [False, True, True]] \<and>
   CHR ''|'' \<in> set ([''a'', ''x|y''] ! 1) \<and>
   shrink_constraints None [[True, True, True], [False, True, True]] [''a'', ''x|y'']
     = Inr [[True, True, False], [False, True, False]] \<and>
   [[True, True, False], [False, True, False]] ! 1 ! 2
     = ([[True, True, True], [False, True, True]] ! 1 ! 2 \<and>
        [[True, True, False], [False, True, False]] ! 0 ! 2)"
proof -
  let ?ms = "[[True, True, True], [False, True, True]]"
  let ?sts = "[''a'', ''x|y'']"
  have h1: "\<forall>m\<in>set ?ms. length m = 3" by simp
  have h2: "length ?ms \<le> length ?sts" by simp
  have h3: "(1::nat) < length ?ms" by simp
  have h4: "CHR ''|'' \<in> set (?sts ! 1)" by simp
  have ev: "shrink_constraints None ?ms ?sts = Inr [[True, True, False], [False, True, False]]"
    by code_simp
  from union_mask_cascade[OF h1 h2 h3 h4, of None] obtain out where
    o: "shrink_constraints None ?ms ?sts = Inr out"
    and nth: "\<forall>p<3. out ! 1 ! p = (?ms ! 1 ! p \<and> (\<forall>j<1. ?ms ! j ! p \<longrightarrow> out ! j ! p))"
    by blast
  have oe: "out = [[True, True, False], [False, True, False]]" using o ev by simp
  have "out ! 1 ! 2 = (?ms ! 1 ! 2 \<and> (\<forall>j<1. ?ms ! j ! 2 \<longrightarrow> out ! j ! 2))"
    using nth by simp
  then have n2: "[[True, True, False], [False, True, False]] ! 1 ! 2
     = (?ms ! 1 ! 2 \<and> [[True, True, False], [False, True, False]] ! 0 ! 2)"
    unfolding oe by simp
  show ?thesis by (intro conjI h2 h3 h4 ev n2)
qed

lemma cascade_disjoint_id:
  assumes l3: "length c3 = L" and lu: "length u = L"
    and up: "\<And>p. p < L \<Longrightarrow> u ! p = (c ! p \<longrightarrow> c2 ! p)"
    and dj: "\<forall>p<L. \<not> (c ! p \<and> c3 ! p)"
  shows "map2 (\<and>) c3 u = c3"
proof (rule nth_equalityI)
  show "length (map2 (\<and>) c3 u) = length c3" using l3 lu by simp
next
  fix p assume "p < length (map2 (\<and>) c3 u)"
  then have p: "p < L" using l3 lu by simp
  then have "map2 (\<and>) c3 u ! p = (c3 ! p \<and> u ! p)" using l3 lu by simp
  also have "\<dots> = c3 ! p" using up[OF p] dj p by blast
  finally show "map2 (\<and>) c3 u ! p = c3 ! p" .
qed

lemma shrink_loop_disjoint:
  assumes "\<forall>m\<in>set cs. length m = L" and "length cs \<le> length sts"
    and "\<forall>st\<in>set sts. CHR ''|'' \<notin> set st"
    and "sorted_wrt (\<lambda>a b. \<forall>p<L. \<not> (a ! p \<and> b ! p)) cs"
  shows "shrink_loop n cs sts = Inr (map (truncate_mask n) cs)"
  using assms
proof (induction sts arbitrary: cs)
  case Nil
  then show ?case by simp
next
  case (Cons st sts')
  show ?case
  proof (cases cs)
    case Nil
    then show ?thesis by simp
  next
    case cs: (Cons c cs0)
    define c2 where "c2 = (if CHR ''|'' \<notin> set st then truncate_mask n c else c)"
    define u where "u = map2 (=) c c2"
    have nb: "CHR ''|'' \<notin> set st" using Cons.prems(3) by simp
    have c2t: "c2 = truncate_mask n c" using nb by (simp add: c2_def)
    have lc: "length c = L" and lcs: "\<forall>c3\<in>set cs0. length c3 = length c"
      and lcs0: "\<forall>m\<in>set cs0. length m = L"
      using Cons.prems(1) cs by simp_all
    have lc2: "length c2 = length c" unfolding c2_def by (rule length_pass_mask)
    have lu: "length u = L" using lc lc2 by (simp add: u_def)
    have sub: "c ! q" if "q < length c" and "c2 ! q" for q
      using that unfolding c2_def by (rule pass_mask_subset)
    have up: "u ! p = (c ! p \<longrightarrow> c2 ! p)" if "p < L" for p
      unfolding u_def by (rule untouched_nth[OF sub lc2]) (use that lc in simp_all)
    have dj: "\<forall>c3\<in>set cs0. \<forall>p<L. \<not> (c ! p \<and> c3 ! p)"
      and sw: "sorted_wrt (\<lambda>a b. \<forall>p<L. \<not> (a ! p \<and> b ! p)) cs0"
      using Cons.prems(4) cs by simp_all
    have "map2 (\<and>) c3 u = c3" if "c3 \<in> set cs0" for c3
      by (rule cascade_disjoint_id[OF _ lu up]) (use that lcs0 dj in auto)
    then have same: "map (\<lambda>c3. map2 (\<and>) c3 u) cs0 = cs0"
      by (simp add: map_idI)
    have step: "shrink_loop n (c # cs0) (st # sts') =
        (case shrink_loop n (map (\<lambda>c3. map2 (\<and>) c3 u) cs0) sts' of
           Inl e \<Rightarrow> Inl e | Inr out \<Rightarrow> Inr (c2 # out))"
      unfolding u_def c2_def by (rule shrink_loop_step[OF lcs])
    have len: "length cs0 \<le> length sts'" using Cons.prems(2) cs by simp
    have nb': "\<forall>st\<in>set sts'. CHR ''|'' \<notin> set st" using Cons.prems(3) by simp
    have IH: "shrink_loop n cs0 sts' = Inr (map (truncate_mask n) cs0)"
      by (rule Cons.IH[OF lcs0 len nb' sw])
    show ?thesis unfolding cs step same IH c2t by simp
  qed
qed

lemma shrink_loop_bound:
  assumes "\<forall>m\<in>set cs. length m = L" and "length cs \<le> length sts"
    and "\<forall>st\<in>set sts. CHR ''|'' \<notin> set st"
    and "shrink_loop n cs sts = Inr out"
  shows "\<forall>m\<in>set out. np_sum m \<le> n"
  using assms
proof (induction sts arbitrary: cs out)
  case Nil
  then show ?case by (cases cs) auto
next
  case (Cons st sts')
  show ?case
  proof (cases cs)
    case Nil
    then show ?thesis using Cons.prems(4) by simp
  next
    case cs: (Cons c cs0)
    define c2 where "c2 = (if CHR ''|'' \<notin> set st then truncate_mask n c else c)"
    define cs' where "cs' = map (\<lambda>c3. map2 (\<and>) c3 (map2 (=) c c2)) cs0"
    have nb: "CHR ''|'' \<notin> set st" using Cons.prems(3) by simp
    have c2t: "c2 = truncate_mask n c" using nb by (simp add: c2_def)
    have lc: "length c = L" and lcs: "\<forall>c3\<in>set cs0. length c3 = length c"
      and lcs0: "\<forall>m\<in>set cs0. length m = L"
      using Cons.prems(1) cs by simp_all
    have lc2: "length c2 = length c" unfolding c2_def by (rule length_pass_mask)
    have l': "\<forall>m\<in>set cs'. length m = L"
      using lcs0 lc lc2 by (simp add: cs'_def)
    have len: "length cs' \<le> length sts'" using Cons.prems(2) cs by (simp add: cs'_def)
    have nb': "\<forall>st\<in>set sts'. CHR ''|'' \<notin> set st" using Cons.prems(3) by simp
    from shrink_loop_total[OF l' len, of n] obtain out' where
      o: "shrink_loop n cs' sts' = Inr out'" by blast
    have step: "shrink_loop n (c # cs0) (st # sts') =
        (case shrink_loop n cs' sts' of Inl e \<Rightarrow> Inl e | Inr out \<Rightarrow> Inr (c2 # out))"
      unfolding cs'_def c2_def by (rule shrink_loop_step[OF lcs])
    have out: "out = c2 # out'"
      using Cons.prems(4) unfolding cs step o by simp
    have "\<forall>m\<in>set out'. np_sum m \<le> n" by (rule Cons.IH[OF l' len nb' o])
    moreover have "np_sum c2 \<le> n" unfolding c2t by (simp add: np_sum_truncate_mask)
    ultimately show ?thesis using out by simp
  qed
qed


text \<open>
  C2 (as stated, refuted). Two overlapping masks without a union, built by
  \<^verbatim>\<open>get_constraint\<close> from the expressions \<^verbatim>\<open>~B\<close> and \<^verbatim>\<open>A\<close> on the types
  \<open>C, A, A\<close>: \<open>min_n = 2\<close>, the first mask is cut to two entries, the cascade removes the
  dropped trial from the second mask, and the results have two entries and one.
\<close>

theorem equal_size_counterexample:
  "get_constraint \<lparr>types = [''C'', ''A'', ''A''], tiers = [''t'', ''t'', ''t'']\<rparr> ''~B'' None
     = Inr [True, True, True] \<and>
   get_constraint \<lparr>types = [''C'', ''A'', ''A''], tiers = [''t'', ''t'', ''t'']\<rparr> ''A'' None
     = Inr [False, True, True] \<and>
   np_min (map np_sum [[True, True, True], [False, True, True]]) = Inr 2 \<and>
   shrink_constraints None [[True, True, True], [False, True, True]] [''~B'', ''A'']
     = Inr [[True, True, False], [False, True, False]] \<and>
   np_sum [True, True, False] = 2 \<and>
   np_sum [False, True, False] = 1"
  by code_simp

text \<open>
  C2 (amended). For two or more masks of one common length whose expressions have no
  union, size matching under a qualifying tier succeeds; every resulting mask has at
  most \<open>min_n\<close> true entries, where \<open>min_n\<close> is the least number of true entries over
  the input masks, and the first has exactly \<open>min_n\<close>. When no two input masks overlap,
  every resulting mask is the input mask cut to its first \<open>min_n\<close> true entries and has
  exactly \<open>min_n\<close> of them.
\<close>

theorem size_matching_cardinality:
  assumes two: "2 \<le> length ms" and len: "\<forall>m\<in>set ms. length m = L"
    and sts: "length ms \<le> length sts" and nb: "\<forall>st\<in>set sts. CHR ''|'' \<notin> set st"
    and tier: "tier = None \<or> tier = Some ''train'' \<or> tier = Some ''validation''"
    and n: "n = Min (set (map np_sum ms))"
  shows "\<exists>out. shrink_constraints tier ms sts = Inr out \<and> length out = length ms \<and>
               (\<forall>m\<in>set out. np_sum m \<le> n) \<and>
               np_sum (out ! 0) = n \<and>
               ((\<forall>i j. i < j \<longrightarrow> j < length ms \<longrightarrow> (\<forall>p<L. \<not> (ms ! i ! p \<and> ms ! j ! p))) \<longrightarrow>
                  out = map (truncate_mask n) ms \<and> (\<forall>m\<in>set out. np_sum m = n))"
proof -
  have ne: "ms \<noteq> []" using two by auto
  have sc: "shrink_constraints tier ms sts = shrink_loop n ms sts"
    unfolding n by (rule shrink_constraints_loop[OF ne tier])
  from shrink_loop_total[OF len sts, of n] obtain out where
    o: "shrink_loop n ms sts = Inr out" and lo: "length out = length ms" by blast
  have bound: "\<forall>m\<in>set out. np_sum m \<le> n"
    by (rule shrink_loop_bound[OF len sts nb o])
  have least: "n \<le> np_sum m" if "m \<in> set ms" for m
    unfolding n using that by (intro Min_le) simp_all
  have trunc: "np_sum (truncate_mask n m) = n" if "m \<in> set ms" for m
    using least[OF that] by (simp add: np_sum_truncate_mask)
  obtain c cs0 where ms: "ms = c # cs0" using ne by (cases ms) auto
  obtain st sts' where st: "sts = st # sts'" using sts ms by (cases sts) auto
  have "out ! 0 = truncate_mask n c"
  proof -
    have lcs: "\<forall>c3\<in>set cs0. length c3 = length c" using len ms by simp
    have nbst: "CHR ''|'' \<notin> set st" using nb st by simp
    show ?thesis
      using o unfolding ms st shrink_loop_step[OF lcs] using nbst
      by (auto split: sum.splits)
  qed
  then have first: "np_sum (out ! 0) = n" using trunc[of c] ms by simp
  have dis: "out = map (truncate_mask n) ms \<and> (\<forall>m\<in>set out. np_sum m = n)"
    if d: "\<forall>i j. i < j \<longrightarrow> j < length ms \<longrightarrow> (\<forall>p<L. \<not> (ms ! i ! p \<and> ms ! j ! p))"
  proof -
    have sw: "sorted_wrt (\<lambda>a b. \<forall>p<L. \<not> (a ! p \<and> b ! p)) ms"
      unfolding sorted_wrt_iff_nth_less using d by blast
    have "shrink_loop n ms sts = Inr (map (truncate_mask n) ms)"
      by (rule shrink_loop_disjoint[OF len sts nb sw])
    then have oe: "out = map (truncate_mask n) ms" using o by simp
    then show ?thesis using trunc by auto
  qed
  show ?thesis unfolding sc using o lo bound first dis by blast
qed

theorem size_matching_cardinality_witness:
  "2 \<le> length [[True, True, True, False, False], [False, False, False, True, True]] \<and>
   (2::nat) = Min (set (map np_sum [[True, True, True, False, False],
                                    [False, False, False, True, True]])) \<and>
   shrink_constraints None [[True, True, True, False, False], [False, False, False, True, True]]
      [''a'', ''~a'']
     = Inr [[True, True, False, False, False], [False, False, False, True, True]]"
proof -
  let ?ms = "[[True, True, True, False, False], [False, False, False, True, True]]"
  let ?sts = "[''a'', ''~a'']"
  have h1: "2 \<le> length ?ms" by simp
  have h2: "\<forall>m\<in>set ?ms. length m = 5" by simp
  have h3: "length ?ms \<le> length ?sts" by simp
  have h4: "\<forall>st\<in>set ?sts. CHR ''|'' \<notin> set st" by simp
  have h5: "(None :: string option) = None \<or> None = Some ''train'' \<or> None = Some ''validation''"
    by simp
  have h6: "(2::nat) = Min (set (map np_sum ?ms))" by (simp add: np_sum_def)
  have h7: "\<forall>i j. i < j \<longrightarrow> j < length ?ms \<longrightarrow> (\<forall>p<5. \<not> (?ms ! i ! p \<and> ?ms ! j ! p))"
  proof (intro allI impI)
    fix i j p :: nat
    assume ij: "i < j" and j: "j < length ?ms" and p: "p < 5"
    then have "i = 0" and "j = 1" by simp_all
    moreover have "p = 0 \<or> p = 1 \<or> p = 2 \<or> p = 3 \<or> p = 4" using p by linarith
    ultimately show "\<not> (?ms ! i ! p \<and> ?ms ! j ! p)" by auto
  qed
  from size_matching_cardinality[OF h1 h2 h3 h4 h5 h6] obtain out where
    o: "shrink_constraints None ?ms ?sts = Inr out"
    and d: "(\<forall>i j. i < j \<longrightarrow> j < length ?ms \<longrightarrow> (\<forall>p<5. \<not> (?ms ! i ! p \<and> ?ms ! j ! p))) \<longrightarrow>
            out = map (truncate_mask 2) ?ms \<and> (\<forall>m\<in>set out. np_sum m = 2)"
    by blast
  have "out = map (truncate_mask 2) ?ms" using d h7 by blast
  also have "\<dots> = [[True, True, False, False, False], [False, False, False, True, True]]"
    by code_simp
  finally have oe: "out = [[True, True, False, False, False], [False, False, False, True, True]]" .
  have ev: "shrink_constraints None ?ms ?sts
     = Inr [[True, True, False, False, False], [False, False, False, True, True]]"
    using o unfolding oe .
  show ?thesis by (intro conjI h1 h6 ev)
qed

end
